theory Spec2Isabelle
  imports Complex_Main "HOL-Library.Log_Nat" "HOL-Library.Multiset"
begin

section \<open>Python values used by voctoyolo.py\<close>

text \<open>
  The script is Python 3. Its integers are unbounded (\<open>int\<close>), its floats are IEEE 754
  binary64 numbers and its operators raise exceptions. Every exception the modelled code can
  raise is a value of \<open>py_error\<close>, and a computation that may raise returns \<open>py_error + 'a\<close>
  with \<open>Inl\<close> for the exception. The last five are the errors of the operating system that
  the file operations raise; \<open>OSError\<close> stands for every one of them that has no constructor
  of its own.
\<close>

datatype py_error =
  ParseError | AttributeError | ValueError | TypeError | ZeroDivisionError | OverflowError
  | FileNotFoundError | NotADirectoryError | IsADirectoryError | PermissionError | OSError

subsection \<open>Floats\<close>

text \<open>
  A float is a sign bit with a non-negative rational magnitude (every finite binary64 number
  is a rational), an infinity, or a NaN. \<open>fl_round\<close> is the rounding every binary64 operation
  applies to its exact result: round to nearest, ties to even, at 53 bits of precision above
  \<open>2 powi (-1022)\<close> and at the fixed spacing \<open>2 powi (-1074)\<close> below, overflowing to infinity
  from \<open>2 ^ 1024\<close> on.
\<close>

datatype pyfloat = Finite bool rat | Infinity bool | NaN

definition round_half_even :: "rat \<Rightarrow> int" where
  "round_half_even x =
     (let f = \<lfloor>x\<rfloor>; d = x - of_int f
      in if d < 1 / 2 then f else if 1 / 2 < d then f + 1 else if even f then f else f + 1)"

definition ilog2 :: "rat \<Rightarrow> int" where
  "ilog2 q =
     (let k = bitlen (fst (quotient_of q)) - bitlen (snd (quotient_of q))
      in if 2 powi k \<le> q then k else k - 1)"

definition ulp :: "rat \<Rightarrow> rat" where
  "ulp q = 2 powi (max (ilog2 q) (- 1022) - 52)"

definition nearest :: "rat \<Rightarrow> rat" where
  "nearest q = of_int (round_half_even (q / ulp q)) * ulp q"

definition fl_round :: "bool \<Rightarrow> rat \<Rightarrow> pyfloat" where
  "fl_round s q = (if 2 ^ 1024 \<le> nearest q then Infinity s else Finite s (nearest q))"

text \<open>The number a finite float denotes; infinities and NaN denote none.\<close>

fun float_value :: "pyfloat \<Rightarrow> rat option" where
  "float_value (Finite s r) = Some (if s then - r else r)"
| "float_value (Infinity s) = None"
| "float_value NaN = None"

text \<open>
  \<open>float_of_int\<close> is the conversion Python applies to an \<open>int\<close> operand of a float
  operation: correctly rounded, \<open>OverflowError\<close> when the result is out of range.
\<close>

definition float_of_int :: "int \<Rightarrow> py_error + pyfloat" where
  "float_of_int n =
     (case fl_round (n < 0) (of_int \<bar>n\<bar>) of
        Infinity s \<Rightarrow> Inl OverflowError
      | r \<Rightarrow> Inr r)"

fun float_mul :: "pyfloat \<Rightarrow> pyfloat \<Rightarrow> pyfloat" where
  "float_mul (Finite s a) (Finite t b) = fl_round (s \<noteq> t) (a * b)"
| "float_mul (Finite s a) (Infinity t) = (if a = 0 then NaN else Infinity (s \<noteq> t))"
| "float_mul (Infinity s) (Finite t b) = (if b = 0 then NaN else Infinity (s \<noteq> t))"
| "float_mul (Infinity s) (Infinity t) = Infinity (s \<noteq> t)"
| "float_mul NaN y = NaN"
| "float_mul x NaN = NaN"

text \<open>Float division raises \<open>ZeroDivisionError\<close> on a zero divisor of either sign.\<close>

fun float_truediv :: "pyfloat \<Rightarrow> pyfloat \<Rightarrow> py_error + pyfloat" where
  "float_truediv (Finite s a) (Finite t b) =
     (if b = 0 then Inl ZeroDivisionError else Inr (fl_round (s \<noteq> t) (a / b)))"
| "float_truediv (Infinity s) (Finite t b) =
     (if b = 0 then Inl ZeroDivisionError else Inr (Infinity (s \<noteq> t)))"
| "float_truediv NaN (Finite t b) = (if b = 0 then Inl ZeroDivisionError else Inr NaN)"
| "float_truediv (Finite s a) (Infinity t) = Inr (Finite (s \<noteq> t) 0)"
| "float_truediv (Infinity s) (Infinity t) = Inr NaN"
| "float_truediv NaN (Infinity t) = Inr NaN"
| "float_truediv x NaN = Inr NaN"

text \<open>\<open>f * n\<close> and \<open>n / f\<close> for a float \<open>f\<close> and an int \<open>n\<close>: the int is converted first.\<close>

definition py_mul_float_int :: "pyfloat \<Rightarrow> int \<Rightarrow> py_error + pyfloat" where
  "py_mul_float_int f n =
     (case float_of_int n of Inl e \<Rightarrow> Inl e | Inr g \<Rightarrow> Inr (float_mul f g))"

definition py_truediv_int_float :: "int \<Rightarrow> pyfloat \<Rightarrow> py_error + pyfloat" where
  "py_truediv_int_float n f =
     (case float_of_int n of Inl e \<Rightarrow> Inl e | Inr g \<Rightarrow> float_truediv g f)"

text \<open>
  \<open>a / b\<close> for two ints is the correctly rounded quotient of the integers themselves (they
  are not converted first); its sign bit is the exclusive or of the operands' signs, also for
  a zero result.
\<close>

definition py_truediv_int_int :: "int \<Rightarrow> int \<Rightarrow> py_error + pyfloat" where
  "py_truediv_int_int a b =
     (if b = 0 then Inl ZeroDivisionError
      else case fl_round ((a < 0) \<noteq> (b < 0)) (of_int \<bar>a\<bar> / of_int \<bar>b\<bar>) of
             Infinity s \<Rightarrow> Inl OverflowError
           | r \<Rightarrow> Inr r)"

text \<open>\<open>int(f)\<close> truncates towards zero.\<close>

fun py_int_of_float :: "pyfloat \<Rightarrow> py_error + int" where
  "py_int_of_float (Finite s r) = Inr (if s then - \<lfloor>r\<rfloor> else \<lfloor>r\<rfloor>)"
| "py_int_of_float (Infinity s) = Inl OverflowError"
| "py_int_of_float NaN = Inl ValueError"

subsection \<open>Decimal text\<close>

definition digit_char :: "nat \<Rightarrow> char" where
  "digit_char d = ''0123456789'' ! d"

fun show_nat :: "nat \<Rightarrow> string" where
  "show_nat n = (if n < 10 then [digit_char n] else show_nat (n div 10) @ [digit_char (n mod 10)])"

definition zero_pad :: "nat \<Rightarrow> string \<Rightarrow> string" where
  "zero_pad k s = replicate (k - length s) (CHR ''0'') @ s"

text \<open>
  The format specification \<open>.6f\<close>: the exact value of the float, rounded half-even to a
  multiple of \<open>10 ^ -6\<close>; \<open>scaled_6f\<close> is that multiple's numerator.
\<close>

definition scaled_6f :: "rat \<Rightarrow> nat" where
  "scaled_6f r = nat (round_half_even (r * 10 ^ 6))"

fun format_6f :: "pyfloat \<Rightarrow> string" where
  "format_6f (Finite s r) =
     (if s then ''-'' else '''') @ show_nat (scaled_6f r div 10 ^ 6) @ ''.''
       @ zero_pad 6 (show_nat (scaled_6f r mod 10 ^ 6))"
| "format_6f (Infinity s) = (if s then ''-inf'' else ''inf'')"
| "format_6f NaN = ''nan''"

text \<open>The number a \<open>.6f\<close> rendering of a finite float denotes.\<close>

fun printed_value :: "pyfloat \<Rightarrow> rat option" where
  "printed_value (Finite s r) =
     Some ((if s then - 1 else 1) * of_nat (scaled_6f r) / 10 ^ 6)"
| "printed_value (Infinity s) = None"
| "printed_value NaN = None"

text \<open>
  \<open>int(s)\<close> for a string \<open>s\<close>. A character of the model is a code point below 256, so the
  strings of the model are the Python strings over the first 256 code points. Surrounding
  blanks are stripped, one sign is allowed, then decimal digits, where single underscores
  may separate digits. Anything else is a \<open>ValueError\<close>, and so is a text with more than
  \<open>max_str_digits\<close> digits (the interpreter's default limit on the conversion, counted without
  the sign and the underscores). The blanks \<open>int\<close> strips are the code points 9 to 13 and 32,
  and of the others below 256 the two that Unicode classifies as white space, 133 (next
  line) and 160 (no-break space); the only decimal digits below 256 are \<open>0\<close> to \<open>9\<close>.
\<close>

definition is_space :: "char \<Rightarrow> bool" where
  "is_space c = (of_char c \<in> {9, 10, 11, 12, 13, 32, 133, 160 :: nat})"

definition max_str_digits :: nat where
  "max_str_digits = 4300"

definition is_digit :: "char \<Rightarrow> bool" where
  "is_digit c = (48 \<le> (of_char c :: nat) \<and> (of_char c :: nat) \<le> 57)"

definition digit_val :: "char \<Rightarrow> nat" where
  "digit_val c = of_char c - 48"

definition strip :: "string \<Rightarrow> string" where
  "strip s = rev (dropWhile is_space (rev (dropWhile is_space s)))"

fun parse_digits :: "nat \<Rightarrow> string \<Rightarrow> nat option" where
  "parse_digits acc [] = Some acc"
| "parse_digits acc [c] = (if is_digit c then Some (10 * acc + digit_val c) else None)"
| "parse_digits acc (c # d # ds) =
     (if is_digit c then parse_digits (10 * acc + digit_val c) (d # ds)
      else if c = CHR ''_'' \<and> is_digit d then parse_digits (10 * acc + digit_val d) ds
      else None)"

definition py_int :: "string \<Rightarrow> py_error + int" where
  "py_int s =
     (let t = strip s;
          neg = (case t of c # cs \<Rightarrow> c = CHR ''-'' | [] \<Rightarrow> False);
          u = (case t of c # cs \<Rightarrow> if c = CHR ''-'' \<or> c = CHR ''+'' then cs else t | [] \<Rightarrow> t)
      in case u of
           [] \<Rightarrow> Inl ValueError
         | c # cs \<Rightarrow>
             if is_digit c \<and> length (filter is_digit u) \<le> max_str_digits
             then (case parse_digits (digit_val c) cs of
                     None \<Rightarrow> Inl ValueError
                   | Some n \<Rightarrow> Inr (if neg then - int n else int n))
             else Inl ValueError)"

subsection \<open>Lists and file names\<close>

text \<open>\<open>xs.index(x)\<close>: the first position of \<open>x\<close>, \<open>ValueError\<close> when there is none.\<close>

fun py_index :: "'a list \<Rightarrow> 'a \<Rightarrow> py_error + nat" where
  "py_index [] x = Inl ValueError"
| "py_index (y # ys) x =
     (if y = x then Inr 0
      else case py_index ys x of Inl e \<Rightarrow> Inl e | Inr i \<Rightarrow> Inr (Suc i))"

text \<open>
  \<open>xs[i:j]\<close> with optional bounds: a negative bound counts from the end, and both bounds are
  clamped to the list.
\<close>

definition slice_bound :: "nat \<Rightarrow> int \<Rightarrow> nat" where
  "slice_bound n k = (if k < 0 then nat (max (k + int n) 0) else min (nat k) n)"

definition py_slice :: "'a list \<Rightarrow> int option \<Rightarrow> int option \<Rightarrow> 'a list" where
  "py_slice xs i j =
     (let n = length xs;
          lo = (case i of None \<Rightarrow> 0 | Some k \<Rightarrow> slice_bound n k);
          hi = (case j of None \<Rightarrow> n | Some k \<Rightarrow> slice_bound n k)
      in take (hi - lo) (drop lo xs))"



section \<open>Configuration\<close>

definition CLASS_NAMES :: "string list" where
  "CLASS_NAMES = [''pothole'']"

text \<open>
  The float literals \<open>0.70\<close> and \<open>0.15\<close> denote the binary64 numbers nearest to them
  (lemmas \<open>train_ratio_nearest\<close> and \<open>val_ratio_nearest\<close> below).
\<close>

definition train_ratio :: pyfloat where
  "train_ratio = Finite False (3152519739159347 / 4503599627370496)"

definition val_ratio :: pyfloat where
  "val_ratio = Finite False (5404319552844595 / 36028797018963968)"

definition test_ratio :: pyfloat where
  "test_ratio = Finite False (5404319552844595 / 36028797018963968)"



section \<open>Coordinate conversion\<close>

definition convert_to_yolo_format ::
  "int \<times> int \<Rightarrow> int \<times> int \<times> int \<times> int \<Rightarrow> py_error + (pyfloat \<times> pyfloat \<times> pyfloat \<times> pyfloat)"
where
  "convert_to_yolo_format img_size box =
     (case img_size of (img_w, img_h) \<Rightarrow>
     (case box of (xmin, xmax, ymin, ymax) \<Rightarrow>
     (case py_mul_float_int (Finite False 2) img_w of
        Inl e \<Rightarrow> Inl e
      | Inr dw \<Rightarrow>
     (case py_truediv_int_float (xmin + xmax) dw of
        Inl e \<Rightarrow> Inl e
      | Inr x_center \<Rightarrow>
     (case py_mul_float_int (Finite False 2) img_h of
        Inl e \<Rightarrow> Inl e
      | Inr dh \<Rightarrow>
     (case py_truediv_int_float (ymin + ymax) dh of
        Inl e \<Rightarrow> Inl e
      | Inr y_center \<Rightarrow>
     (case py_truediv_int_int (xmax - xmin) img_w of
        Inl e \<Rightarrow> Inl e
      | Inr width \<Rightarrow>
     (case py_truediv_int_int (ymax - ymin) img_h of
        Inl e \<Rightarrow> Inl e
      | Inr height \<Rightarrow> Inr (x_center, y_center, width, height)))))))))"

section \<open>Annotation documents\<close>

text \<open>
  An element of a parsed document has a tag, a text (\<open>None\<close> for an element without
  character data) and its children in document order. \<open>find_elem\<close> is \<open>Element.find\<close> with
  a plain tag (the first child with it), \<open>findall\<close> is \<open>Element.findall\<close>.
\<close>

datatype element = Element (tag: string) (text_of: "string option") (children: "element list")

definition find_elem :: "element \<Rightarrow> string \<Rightarrow> element option" where
  "find_elem e t = find (\<lambda>c. tag c = t) (children e)"

definition findall :: "element \<Rightarrow> string \<Rightarrow> element list" where
  "findall e t = filter (\<lambda>c. tag c = t) (children e)"

text \<open>
  \<open>int(node.find(t).text)\<close> where \<open>node\<close> may be \<open>None\<close>: \<open>AttributeError\<close> when \<open>node\<close> or
  the child is missing, \<open>TypeError\<close> when the child has no text, \<open>ValueError\<close> when the text
  is not an integer.
\<close>

definition int_field :: "element option \<Rightarrow> string \<Rightarrow> py_error + int" where
  "int_field node t =
     (case node of
        None \<Rightarrow> Inl AttributeError
      | Some n \<Rightarrow>
          (case find_elem n t of
             None \<Rightarrow> Inl AttributeError
           | Some c \<Rightarrow> (case text_of c of None \<Rightarrow> Inl TypeError | Some s \<Rightarrow> py_int s)))"

text \<open>
  What the script prints, one constructor per \<open>print\<close> call, with the values that vary
  from one call to the next.
\<close>

datatype message =
    StartMsg
  | CreatedDirsMsg string
  | FatalNotFoundMsg
  | FatalNoXmlMsg
  | SummaryHeaderMsg
  | TotalFilesMsg nat
  | SubsetSizeMsg string nat
  | SummaryFooterMsg
  | ProcessingMsg string
  | ImageNotFoundMsg string
  | CompleteMsg
  | ParseErrorMsg string
  | SizeErrorMsg string
  | UnknownClassMsg "string option"
  | MissingBoxMsg string

section \<open>process_xml_file\<close>

definition format_line :: "nat \<Rightarrow> pyfloat \<times> pyfloat \<times> pyfloat \<times> pyfloat \<Rightarrow> string" where
  "format_line class_id yolo_box =
     (case yolo_box of (a, b, c, d) \<Rightarrow>
        show_nat class_id @ '' '' @ format_6f a @ '' '' @ format_6f b @ '' '' @ format_6f c
          @ '' '' @ format_6f d @ [CHR 0x0A])"

text \<open>
  One iteration of the loop over the \<open>object\<close> entries: it appends a line, prints a warning
  and continues, or raises.
\<close>

datatype object_outcome = Emit string | Skip message | Raise py_error

definition box_failure :: "string \<Rightarrow> py_error \<Rightarrow> object_outcome" where
  "box_failure xml_path e = (if e = AttributeError then Skip (MissingBoxMsg xml_path) else Raise e)"

definition process_object ::
  "string \<Rightarrow> string list \<Rightarrow> int \<times> int \<Rightarrow> element \<Rightarrow> object_outcome"
where
  "process_object xml_path classes img_size obj =
     (case find_elem obj ''name'' of
        None \<Rightarrow> Raise AttributeError
      | Some nm \<Rightarrow>
          (case py_index (map Some classes) (text_of nm) of
             Inl e \<Rightarrow> Skip (UnknownClassMsg (text_of nm))
           | Inr class_id \<Rightarrow>
               (case int_field (find_elem obj ''bndbox'') ''xmin'' of
                  Inl e \<Rightarrow> box_failure xml_path e
                | Inr xmin \<Rightarrow>
               (case int_field (find_elem obj ''bndbox'') ''ymin'' of
                  Inl e \<Rightarrow> box_failure xml_path e
                | Inr ymin \<Rightarrow>
               (case int_field (find_elem obj ''bndbox'') ''xmax'' of
                  Inl e \<Rightarrow> box_failure xml_path e
                | Inr xmax \<Rightarrow>
               (case int_field (find_elem obj ''bndbox'') ''ymax'' of
                  Inl e \<Rightarrow> box_failure xml_path e
                | Inr ymax \<Rightarrow>
               (case convert_to_yolo_format img_size (xmin, xmax, ymin, ymax) of
                  Inl e \<Rightarrow> Raise e
                | Inr yolo_box \<Rightarrow> Emit (format_line class_id yolo_box))))))))"

text \<open>
  The loop, with the printed warnings and \<open>yolo_lines\<close> as accumulators. The result is what
  was printed, and the exception or the returned list.
\<close>

fun process_objects ::
  "string \<Rightarrow> string list \<Rightarrow> int \<times> int \<Rightarrow> element list \<Rightarrow> message list \<Rightarrow> string list
     \<Rightarrow> message list \<times> (py_error + string list)"
where
  "process_objects xml_path classes img_size [] out yolo_lines = (out, Inr yolo_lines)"
| "process_objects xml_path classes img_size (obj # objs) out yolo_lines =
     (case process_object xml_path classes img_size obj of
        Raise e \<Rightarrow> (out, Inl e)
      | Skip m \<Rightarrow> process_objects xml_path classes img_size objs (out @ [m]) yolo_lines
      | Emit line \<Rightarrow> process_objects xml_path classes img_size objs out (yolo_lines @ [line]))"

text \<open>
  \<open>parse\<close> stands for \<open>ET.parse(xml_path).getroot()\<close>: the root element of the document, or
  the exception \<open>ET.parse\<close> raised. Only \<open>ParseError\<close> is caught.
\<close>

definition process_xml_file ::
  "(string \<Rightarrow> py_error + element) \<Rightarrow> string \<Rightarrow> string list
     \<Rightarrow> message list \<times> (py_error + string list)"
where
  "process_xml_file parse xml_path classes =
     (case parse xml_path of
        Inl e \<Rightarrow> (if e = ParseError then ([ParseErrorMsg xml_path], Inr []) else ([], Inl e))
      | Inr root_node \<Rightarrow>
          (case int_field (find_elem root_node ''size'') ''width'' of
             Inl e \<Rightarrow>
               (if e = AttributeError then ([SizeErrorMsg xml_path], Inr []) else ([], Inl e))
           | Inr img_w \<Rightarrow>
               (case int_field (find_elem root_node ''size'') ''height'' of
                  Inl e \<Rightarrow>
                    (if e = AttributeError then ([SizeErrorMsg xml_path], Inr []) else ([], Inl e))
                | Inr img_h \<Rightarrow>
                    process_objects xml_path classes (img_w, img_h) (findall root_node ''object'')
                      [] [])))"

section \<open>main\<close>

text \<open>
  What \<open>main\<close> reads from its environment: the outcome of each \<open>os.makedirs\<close> call (by the
  kind and the subset of the directory), the outcome of \<open>os.listdir\<close> on the annotation
  directory (the names, or the exception it raised), the parse of each annotation file by
  name, which names exist in the image directory, the permutation \<open>random.shuffle\<close> applies,
  and the outcome of opening and writing each label file and of each \<open>shutil.copyfile\<close> (by
  the subset and the name of the file written); \<open>None\<close> is success, \<open>Some e\<close> the exception
  raised. What it writes: the directories it creates, the label files by subset and name,
  the image copies by subset and name, and the printed messages. A file is identified by
  its name in its directory, so the path of an annotation file is its name. \<open>print\<close>,
  \<open>os.path.exists\<close> and the operations on names and lists are taken not to raise. When an
  operation raises, the state returned with the exception holds what was completed before.
\<close>

record world =
  makedirs_error :: "string \<times> string \<Rightarrow> py_error option"
  listdir :: "py_error + string list"
  parse :: "string \<Rightarrow> py_error + element"
  image_exists :: "string \<Rightarrow> bool"
  shuffle :: "string list \<Rightarrow> string list"
  write_error :: "string \<times> string \<Rightarrow> py_error option"
  copy_error :: "string \<times> string \<Rightarrow> py_error option"





definition split_indices :: "nat \<Rightarrow> py_error + int \<times> int" where
  "split_indices num_files =
     (case py_mul_float_int train_ratio (int num_files) of
        Inl e \<Rightarrow> Inl e
      | Inr a \<Rightarrow>
     (case py_int_of_float a of
        Inl e \<Rightarrow> Inl e
      | Inr train_end \<Rightarrow>
     (case py_mul_float_int val_ratio (int num_files) of
        Inl e \<Rightarrow> Inl e
      | Inr b \<Rightarrow>
     (case py_int_of_float b of
        Inl e \<Rightarrow> Inl e
      | Inr val_size \<Rightarrow> Inr (train_end, train_end + val_size)))))"

definition data_splits :: "string list \<Rightarrow> py_error + (string \<times> string list) list" where
  "data_splits xml_files =
     (case split_indices (length xml_files) of
        Inl e \<Rightarrow> Inl e
      | Inr (train_end, val_end) \<Rightarrow>
          Inr [(''train'', py_slice xml_files None (Some train_end)),
               (''val'', py_slice xml_files (Some train_end) (Some val_end)),
               (''test'', py_slice xml_files (Some val_end) None)])"







section \<open>Derived quantities\<close>

text \<open>
  The number of files \<open>main\<close> puts into the train and the validation subset of
  \<open>n\<close> files: the integer parts of the binary64 products \<open>0.70 * n\<close> and \<open>0.15 * n\<close>
  (lemma \<open>split_indices_eq\<close> below relates them to \<open>split_indices\<close>).
\<close>

definition train_count :: "nat \<Rightarrow> nat" where
  "train_count n = nat \<lfloor>nearest (3152519739159347 / 4503599627370496 * nearest (of_nat n))\<rfloor>"

definition val_count :: "nat \<Rightarrow> nat" where
  "val_count n = nat \<lfloor>nearest (5404319552844595 / 36028797018963968 * nearest (of_nat n))\<rfloor>"

text \<open>
  The split points as the specification words them, \<open>floor(train_ratio * N)\<close> and
  \<open>train_end + floor(val_ratio * N)\<close>, for ratios given as numbers, with the product and
  the floor of exact arithmetic.
\<close>

definition spec_split_points :: "rat \<Rightarrow> rat \<Rightarrow> nat \<Rightarrow> int \<times> int" where
  "spec_split_points train_r val_r n =
     (\<lfloor>train_r * of_nat n\<rfloor>, \<lfloor>train_r * of_nat n\<rfloor> + \<lfloor>val_r * of_nat n\<rfloor>)"

section \<open>Notions used to state the results\<close>

text \<open>
  The example of the specification: an image of 640 by 480 pixels with one object of class
  \<open>pothole\<close> whose box is \<open>xmin = 100\<close>, \<open>xmax = 200\<close>, \<open>ymin = 50\<close>, \<open>ymax = 150\<close>; and a
  second object of a class that is not in the registry.
\<close>

definition example_size :: element where
  "example_size =
     Element ''size'' None
       [Element ''width'' (Some ''640'') [], Element ''height'' (Some ''480'') []]"

definition example_object :: element where
  "example_object =
     Element ''object'' None
       [Element ''name'' (Some ''pothole'') [],
        Element ''bndbox'' None
          [Element ''xmin'' (Some ''100'') [], Element ''ymin'' (Some ''50'') [],
           Element ''xmax'' (Some ''200'') [], Element ''ymax'' (Some ''150'') []]]"


definition example_doc :: element where
  "example_doc = Element ''annotation'' None [example_size, example_object]"

text \<open>
  Two more object entries, for a registry with the classes \<open>car\<close> and \<open>pothole\<close>: a car
  whose box is the whole image of 640 by 480 pixels, and a pothole without a box.
\<close>

definition car_object :: element where
  "car_object =
     Element ''object'' None
       [Element ''name'' (Some ''car'') [],
        Element ''bndbox'' None
          [Element ''xmin'' (Some ''0'') [], Element ''ymin'' (Some ''0'') [],
           Element ''xmax'' (Some ''640'') [], Element ''ymax'' (Some ''480'') []]]"

definition boxless_object :: element where
  "boxless_object = Element ''object'' None [Element ''name'' (Some ''pothole'') []]"

definition two_class_doc :: element where
  "two_class_doc =
     Element ''annotation'' None [example_size, car_object, boxless_object, example_object]"

text \<open>
  The shape of a label line as the specification words it: a class id in decimal digits and
  four numbers with exactly six digits after the decimal point, separated by single spaces
  and ended by a newline. \<open>split_on\<close> cuts a string at every occurrence of a character.
\<close>

fun split_on :: "char \<Rightarrow> string \<Rightarrow> string list" where
  "split_on c [] = [[]]"
| "split_on c (x # xs) =
     (if x = c then [] # split_on c xs
      else (case split_on c xs of w # ws \<Rightarrow> (x # w) # ws | [] \<Rightarrow> [[x]]))"

definition is_decimal6 :: "string \<Rightarrow> bool" where
  "is_decimal6 s =
     (let t = (case s of c # cs \<Rightarrow> if c = CHR ''-'' then cs else s | [] \<Rightarrow> s)
      in takeWhile is_digit t \<noteq> [] \<and>
         (case dropWhile is_digit t of
            c # fr \<Rightarrow> c = CHR ''.'' \<and> length fr = 6 \<and> list_all is_digit fr
          | [] \<Rightarrow> False))"

definition is_label_line :: "string \<Rightarrow> bool" where
  "is_label_line l =
     (l \<noteq> [] \<and> last l = CHR 0x0A \<and>
      (case split_on (CHR '' '') (butlast l) of
         [c, x, y, w, h] \<Rightarrow>
           c \<noteq> [] \<and> list_all is_digit c \<and> is_decimal6 x \<and> is_decimal6 y \<and> is_decimal6 w
             \<and> is_decimal6 h
       | _ \<Rightarrow> False))"






text \<open>The lines one object entry contributes to the result: one line or none.\<close>

definition emitted_line :: "string \<Rightarrow> string list \<Rightarrow> int \<times> int \<Rightarrow> element \<Rightarrow> string list" where
  "emitted_line xml_path classes img_size obj =
     (case process_object xml_path classes img_size obj of Emit line \<Rightarrow> [line] | _ \<Rightarrow> [])"

















text \<open>The binary64 number nearest to a rational number, with the sign of the number.\<close>

definition nearest_float :: "rat \<Rightarrow> pyfloat" where
  "nearest_float q = fl_round (q < 0) \<bar>q\<bar>"

declare show_nat.simps [simp del]

section \<open>Facts about binary64 rounding\<close>

subsection \<open>Powers of two\<close>

lemma pw2_pos: "(0::rat) < 2 powi a"
  by simp

lemma pw2_div: "(2::rat) powi a / 2 powi b = 2 powi (a - b)"
  using power_int_diff [of "2::rat" a b] by simp

lemma pw2_mult: "(2::rat) powi a * 2 powi b = 2 powi (a + b)"
  using power_int_add [of "2::rat" a b] by simp

lemma pw2_less_iff: "(2::rat) powi a < 2 powi b \<longleftrightarrow> a < b"
proof
  assume l: "(2::rat) powi a < 2 powi b"
  show "a < b"
  proof (rule ccontr)
    assume "\<not> a < b"
    then have "b \<le> a" by simp
    then have "(2::rat) powi b \<le> 2 powi a" by (intro power_int_increasing) auto
    with l show False by simp
  qed
next
  assume "a < b"
  then show "(2::rat) powi a < 2 powi b" by (intro power_int_strict_increasing) auto
qed

lemma pw2_le_iff: "(2::rat) powi a \<le> 2 powi b \<longleftrightarrow> a \<le> b"
  using pw2_less_iff [of b a] by (simp add: not_less [symmetric])

lemma pw2_nat: "0 \<le> a \<Longrightarrow> (2::rat) powi a = of_int (2 ^ nat a)"
  by (simp add: power_int_def)

subsection \<open>Rounding to an integer\<close>

lemma rhe_cases: "round_half_even x = \<lfloor>x\<rfloor> \<or> round_half_even x = \<lfloor>x\<rfloor> + 1"
  by (simp add: round_half_even_def Let_def)

lemma rhe_err: "\<bar>of_int (round_half_even x) - x\<bar> \<le> 1 / 2"
proof -
  have "of_int \<lfloor>x\<rfloor> \<le> x" "x < of_int \<lfloor>x\<rfloor> + 1" by linarith+
  then show ?thesis
    by (auto simp add: round_half_even_def Let_def abs_le_iff)
qed

lemma rhe_ge: "of_int n \<le> x \<Longrightarrow> n \<le> round_half_even x"
proof -
  assume "of_int n \<le> x"
  then have "n \<le> \<lfloor>x\<rfloor>" by (simp add: le_floor_iff)
  with rhe_cases [of x] show ?thesis by auto
qed

lemma rhe_of_int: "round_half_even (of_int n) = n"
  by (simp add: round_half_even_def Let_def)

lemma rhe_le: "x \<le> of_int n \<Longrightarrow> round_half_even x \<le> n"
proof -
  assume a: "x \<le> of_int n"
  show ?thesis
  proof (cases "x = of_int n")
    case True
    then show ?thesis by (simp add: rhe_of_int)
  next
    case False
    with a have "x < of_int n" by simp
    then have "\<lfloor>x\<rfloor> < n" by (simp add: floor_less_iff)
    with rhe_cases [of x] show ?thesis by auto
  qed
qed

lemma rhe_eqI: "\<bar>x - of_int m\<bar> < 1 / 2 \<Longrightarrow> round_half_even x = m"
proof -
  assume a: "\<bar>x - of_int m\<bar> < 1 / 2"
  have "\<bar>of_int (round_half_even x) - x\<bar> \<le> 1 / 2" by (rule rhe_err)
  with a have "\<bar>(of_int (round_half_even x) :: rat) - of_int m\<bar> < 1" by linarith
  then have "\<bar>round_half_even x - m\<bar> < 1"
    by (metis of_int_abs of_int_diff of_int_less_1_iff)
  then show ?thesis by simp
qed

subsection \<open>The binary exponent\<close>

lemma bitlen_rat_bounds:
  assumes "0 < n"
  shows "(2::rat) powi (bitlen n - 1) \<le> of_int n" and "of_int n < (2::rat) powi (bitlen n)"
proof -
  from bitlen_bounds [OF assms]
  have lo: "2 ^ nat (bitlen n - 1) \<le> n" and hi: "n < 2 ^ nat (bitlen n)" by auto
  have pos: "1 \<le> bitlen n"
  proof (rule ccontr)
    assume "\<not> 1 \<le> bitlen n"
    then have "nat (bitlen n) = 0" by simp
    with hi assms show False by simp
  qed
  have "(2::rat) powi (bitlen n - 1) = of_int (2 ^ nat (bitlen n - 1))"
    using pos by (intro pw2_nat) simp
  also have "\<dots> \<le> of_int n" using lo by (simp only: of_int_le_iff)
  finally show "(2::rat) powi (bitlen n - 1) \<le> of_int n" .
  have "(of_int n :: rat) < of_int (2 ^ nat (bitlen n))" using hi by (simp only: of_int_less_iff)
  also have "\<dots> = 2 powi (bitlen n)" using pos by (intro pw2_nat [symmetric]) simp
  finally show "of_int n < (2::rat) powi (bitlen n)" .
qed

lemma ilog2_bounds:
  assumes "0 < q"
  shows "2 powi (ilog2 q) \<le> q" and "q < 2 powi (ilog2 q + 1)"
proof -
  obtain n d where nd: "quotient_of q = (n, d)" by fastforce
  then have d: "0 < d" and q: "q = of_int n / of_int d"
    using quotient_of_denom_pos quotient_of_div by auto
  have n: "0 < n" using assms q d by (simp add: zero_less_divide_iff)
  define k where "k = bitlen n - bitlen d"
  have dpos: "(0::rat) < of_int d" using d by simp
  have "q < 2 powi (bitlen n) / 2 powi (bitlen d - 1)"
    unfolding q using bitlen_rat_bounds [OF n] bitlen_rat_bounds [OF d] dpos n
    by (intro frac_less) auto
  also have "\<dots> = 2 powi (bitlen n - (bitlen d - 1))" by (rule pw2_div)
  also have "bitlen n - (bitlen d - 1) = k + 1" by (simp add: k_def)
  finally have hi: "q < 2 powi (k + 1)" .
  have "2 powi (bitlen n - 1) / 2 powi (bitlen d) < q"
    unfolding q using bitlen_rat_bounds [OF n] bitlen_rat_bounds [OF d] dpos
    by (intro frac_less2) auto
  moreover have "(2::rat) powi (bitlen n - 1) / 2 powi (bitlen d) = 2 powi (bitlen n - 1 - bitlen d)"
    by (rule pw2_div)
  moreover have "bitlen n - 1 - bitlen d = k - 1" by (simp add: k_def)
  ultimately have lo: "2 powi (k - 1) < q" by simp
  have e: "ilog2 q = (if 2 powi k \<le> q then k else k - 1)"
    by (simp add: ilog2_def nd k_def Let_def)
  show "2 powi (ilog2 q) \<le> q" using lo by (simp add: e)
  show "q < 2 powi (ilog2 q + 1)" using hi by (auto simp add: e)
qed

lemma ilog2_ge: "2 powi k \<le> q \<Longrightarrow> k \<le> ilog2 q"
proof -
  assume a: "2 powi k \<le> q"
  have "0 < q" using a pw2_pos [of k] by linarith
  from ilog2_bounds(2) [OF this] a have "(2::rat) powi k < 2 powi (ilog2 q + 1)" by linarith
  then show ?thesis by (simp add: pw2_less_iff)
qed

lemma ilog2_less: "0 < q \<Longrightarrow> q < 2 powi k \<Longrightarrow> ilog2 q < k"
proof -
  assume q: "0 < q" and a: "q < 2 powi k"
  from ilog2_bounds(1) [OF q] a have "(2::rat) powi (ilog2 q) < 2 powi k" by linarith
  then show ?thesis by (simp add: pw2_less_iff)
qed

lemma ilog2_le: "0 < q \<Longrightarrow> q \<le> 2 powi k \<Longrightarrow> ilog2 q \<le> k"
proof -
  assume q: "0 < q" and a: "q \<le> 2 powi k"
  from ilog2_bounds(1) [OF q] a have "(2::rat) powi (ilog2 q) \<le> 2 powi k" by linarith
  then show ?thesis by (simp add: pw2_le_iff)
qed

lemma ilog2_eqI: "2 powi e \<le> q \<Longrightarrow> q < 2 powi (e + 1) \<Longrightarrow> ilog2 q = e"
proof -
  assume a: "2 powi e \<le> q" and b: "q < 2 powi (e + 1)"
  have "0 < q" using a pw2_pos [of e] by linarith
  from ilog2_ge [OF a] ilog2_less [OF this b] show ?thesis by simp
qed

subsection \<open>Rounding to binary64\<close>

lemma ulp_pos: "0 < ulp q"
  by (simp add: ulp_def)

lemma nearest_0: "nearest 0 = 0"
  by (simp add: nearest_def rhe_of_int [of 0, simplified])

lemma nearest_nonneg: "0 \<le> q \<Longrightarrow> 0 \<le> nearest q"
proof -
  assume "0 \<le> q"
  then have "of_int 0 \<le> q / ulp q" using ulp_pos [of q] by simp
  then have "0 \<le> round_half_even (q / ulp q)" by (rule rhe_ge)
  then show ?thesis using ulp_pos [of q] by (simp add: nearest_def)
qed

lemma nearest_err: "\<bar>nearest q - q\<bar> \<le> ulp q / 2"
proof -
  have u: "0 < ulp q" by (rule ulp_pos)
  have "nearest q - q = (of_int (round_half_even (q / ulp q)) - q / ulp q) * ulp q"
    using u by (simp add: nearest_def algebra_simps)
  then have "\<bar>nearest q - q\<bar> = \<bar>of_int (round_half_even (q / ulp q)) - q / ulp q\<bar> * ulp q"
    using u by (simp add: abs_mult)
  also have "\<dots> \<le> 1 / 2 * ulp q"
    using u rhe_err [of "q / ulp q"] by (intro mult_right_mono) auto
  finally show ?thesis by simp
qed

lemma nearest_le_grid: "q \<le> of_int m * ulp q \<Longrightarrow> nearest q \<le> of_int m * ulp q"
proof -
  assume a: "q \<le> of_int m * ulp q"
  have u: "0 < ulp q" by (rule ulp_pos)
  from a u have "q / ulp q \<le> of_int m" by (simp add: pos_divide_le_eq)
  then have "round_half_even (q / ulp q) \<le> m" by (rule rhe_le)
  then have "(of_int (round_half_even (q / ulp q)) :: rat) \<le> of_int m" by simp
  then show ?thesis using u by (simp add: nearest_def)
qed

lemma nearest_ge_grid: "of_int m * ulp q \<le> q \<Longrightarrow> of_int m * ulp q \<le> nearest q"
proof -
  assume a: "of_int m * ulp q \<le> q"
  have u: "0 < ulp q" by (rule ulp_pos)
  from a u have "of_int m \<le> q / ulp q" by (simp add: pos_le_divide_eq)
  then have "m \<le> round_half_even (q / ulp q)" by (rule rhe_ge)
  then have "(of_int m :: rat) \<le> of_int (round_half_even (q / ulp q))" by simp
  then show ?thesis using u by (simp add: nearest_def)
qed

lemma pw2_on_grid:
  assumes "max (ilog2 q) (- 1022) - 52 \<le> k"
  shows "2 powi k = of_int (2 ^ nat (k - (max (ilog2 q) (- 1022) - 52))) * ulp q"
proof -
  define e where "e = max (ilog2 q) (- 1022) - 52"
  have "(2::rat) powi k = 2 powi (k - e) * 2 powi e" by (simp add: pw2_mult)
  also have "(2::rat) powi (k - e) = of_int (2 ^ nat (k - e))"
    using assms by (intro pw2_nat) (simp add: e_def)
  finally show ?thesis by (simp add: e_def ulp_def)
qed

lemma nearest_le_pw2:
  assumes "0 < q" and "q \<le> 2 powi k" and "- 1022 \<le> k"
  shows "nearest q \<le> 2 powi k"
proof -
  have "ilog2 q \<le> k" using assms by (intro ilog2_le)
  then have g: "max (ilog2 q) (- 1022) - 52 \<le> k" using assms(3) by simp
  show ?thesis
    using nearest_le_grid [of q "2 ^ nat (k - (max (ilog2 q) (- 1022) - 52))"] assms(2)
    by (simp only: pw2_on_grid [OF g, symmetric])
qed

lemma nearest_ge_pw2:
  assumes "2 powi k \<le> q" and "- 1022 \<le> k"
  shows "2 powi k \<le> nearest q"
proof -
  have k: "k \<le> ilog2 q" using assms by (intro ilog2_ge)
  have q: "0 < q" using assms(1) pw2_pos [of k] by linarith
  have g: "max (ilog2 q) (- 1022) - 52 \<le> ilog2 q" using k assms(2) by simp
  have "2 powi (ilog2 q) \<le> nearest q"
    using nearest_ge_grid [of "2 ^ nat (ilog2 q - (max (ilog2 q) (- 1022) - 52))" q]
      ilog2_bounds(1) [OF q]
    by (simp only: pw2_on_grid [OF g, symmetric])
  moreover have "(2::rat) powi k \<le> 2 powi (ilog2 q)" using k by (simp add: pw2_le_iff)
  ultimately show ?thesis by linarith
qed

lemma nearest_rel_err:
  assumes "2 powi (- 1022) \<le> q"
  shows "\<bar>nearest q - q\<bar> \<le> q / 2 ^ 53"
proof -
  have q: "0 < q" using assms pw2_pos [of "- 1022"] by linarith
  have e: "- 1022 \<le> ilog2 q" using assms by (rule ilog2_ge)
  then have "ulp q = 2 powi (ilog2 q - 52)" by (simp add: ulp_def max_def)
  also have "\<dots> = 2 powi (ilog2 q) / 2 powi 52" by (simp only: pw2_div)
  also have "\<dots> \<le> q / 2 powi 52"
    using ilog2_bounds(1) [OF q] by (intro divide_right_mono) auto
  finally have "ulp q / 2 \<le> q / 2 powi 52 / 2" by simp
  also have "\<dots> = q / 2 ^ 53" by simp
  finally show ?thesis using nearest_err [of q] by linarith
qed

lemma nearest_eqI:
  assumes "2 powi e \<le> q" and "q < 2 powi (e + 1)" and "- 1022 \<le> e"
    and "\<bar>q / 2 powi (e - 52) - of_int m\<bar> < 1 / 2"
  shows "nearest q = of_int m * 2 powi (e - 52)"
proof -
  have "ilog2 q = e" using assms(1,2) by (rule ilog2_eqI)
  then have u: "ulp q = 2 powi (e - 52)" using assms(3) by (simp add: ulp_def max_def)
  have "round_half_even (q / ulp q) = m" using assms(4) unfolding u by (rule rhe_eqI)
  then show ?thesis by (simp add: nearest_def u)
qed

lemma nearest_on_grid: "q = of_int m * ulp q \<Longrightarrow> nearest q = q"
proof -
  assume a: "q = of_int m * ulp q"
  have u: "0 < ulp q" by (rule ulp_pos)
  from a u have "q / ulp q = of_int m"
    by (metis nonzero_mult_div_cancel_right less_irrefl)
  then have "round_half_even (q / ulp q) = m" by (simp add: rhe_of_int)
  then show ?thesis using a by (simp add: nearest_def)
qed

lemma nearest_of_int:
  assumes "0 \<le> n" and "n \<le> 2 ^ 53"
  shows "nearest (of_int n) = of_int n"
proof (cases "n = 0")
  case True
  then show ?thesis by (simp add: nearest_0)
next
  case False
  with assms have n: "0 < n" by simp
  define q :: rat where "q = of_int n"
  have q: "0 < q" using n by (simp add: q_def)
  have "1 \<le> q" using n by (simp add: q_def)
  then have "2 powi 0 \<le> q" by simp
  then have e0: "0 \<le> ilog2 q" by (rule ilog2_ge)
  have "q \<le> 2 powi 53" using assms(2) unfolding q_def
    by (metis of_int_le_iff of_int_numeral of_int_power power_int_numeral)
  then have e53: "ilog2 q \<le> 53" using q by (intro ilog2_le)
  define d where "d = 52 - ilog2 q"
  show ?thesis
  proof (cases "ilog2 q = 53")
    case True
    have "(2::rat) powi 53 \<le> q" using ilog2_bounds(1) [OF q] True by simp
    with \<open>q \<le> 2 powi 53\<close> have qq: "q = 2 powi 53" by simp
    have "ulp q = 2" using True by (simp add: ulp_def)
    then have "q = of_int (2 ^ 52) * ulp q" using qq by simp
    then show ?thesis unfolding q_def [symmetric] by (rule nearest_on_grid)
  next
    case False
    with e53 have "ilog2 q \<le> 52" by simp
    then have d: "0 \<le> d" by (simp add: d_def)
    have "ulp q = 2 powi (- d)" using e0 by (simp add: ulp_def d_def max_def)
    moreover have "(2::rat) powi d * 2 powi (- d) = 1" by (simp add: pw2_mult)
    moreover have "(2::rat) powi d = of_int (2 ^ nat d)" using d by (rule pw2_nat)
    ultimately have "q = of_int (n * 2 ^ nat d) * ulp q"
      by (simp add: q_def mult.assoc)
    then show ?thesis unfolding q_def [symmetric] by (rule nearest_on_grid)
  qed
qed

lemma fl_round_finite: "nearest q < 2 ^ 1024 \<Longrightarrow> fl_round s q = Finite s (nearest q)"
  by (simp add: fl_round_def)

lemma nearest_le_pw2_0:
  assumes "0 \<le> q" and "q \<le> 2 powi k" and "- 1022 \<le> k"
  shows "nearest q \<le> 2 powi k"
proof (cases "q = 0")
  case True
  then show ?thesis by (simp add: nearest_0)
next
  case False
  with assms(1) have "0 < q" by simp
  then show ?thesis using assms(2,3) by (rule nearest_le_pw2)
qed

lemma fl_round_small:
  assumes "0 \<le> q" and "q \<le> 2 ^ 1023"
  shows "fl_round s q = Finite s (nearest q)" and "nearest q \<le> 2 ^ 1023"
proof -
  have "q \<le> 2 powi 1023" using assms(2) by simp
  with assms(1) have "nearest q \<le> 2 powi 1023" by (rule nearest_le_pw2_0) simp
  then show b: "nearest q \<le> 2 ^ 1023" by simp
  have "(2::rat) ^ 1023 < 2 ^ 1024" by simp
  with b have "nearest q < 2 ^ 1024" by linarith
  then show "fl_round s q = Finite s (nearest q)" by (rule fl_round_finite)
qed

lemma float_of_nat:
  assumes "n \<le> 2 ^ 1023"
  shows "float_of_int (int n) = Inr (Finite False (nearest (of_nat n)))"
proof -
  have "(of_nat n :: rat) \<le> 2 ^ 1023" using assms
    by (metis of_nat_le_iff of_nat_numeral of_nat_power)
  then have "fl_round False (of_nat n) = Finite False (nearest (of_nat n))"
    by (intro fl_round_small) simp
  then show ?thesis by (simp add: float_of_int_def)
qed

lemma mul_ratio_nat:
  assumes "n \<le> 2 ^ 1023" and "0 \<le> r" and "r \<le> 1"
  shows "py_mul_float_int (Finite False r) (int n)
           = Inr (Finite False (nearest (r * nearest (of_nat n))))"
proof -
  have le: "(of_nat n :: rat) \<le> 2 ^ 1023" using assms(1)
    by (metis of_nat_le_iff of_nat_numeral of_nat_power)
  have x: "nearest (of_nat n) \<le> 2 ^ 1023" using le by (intro fl_round_small) simp
  have x0: "0 \<le> nearest (of_nat n)" by (intro nearest_nonneg) simp
  have "r * nearest (of_nat n) \<le> 1 * nearest (of_nat n)"
    using assms(3) x0 by (intro mult_right_mono)
  with x have "r * nearest (of_nat n) \<le> 2 ^ 1023" by simp
  moreover have "0 \<le> r * nearest (of_nat n)" using assms(2) x0 by simp
  ultimately have "fl_round False (r * nearest (of_nat n))
      = Finite False (nearest (r * nearest (of_nat n)))"
    by (intro fl_round_small)
  then show ?thesis by (simp add: py_mul_float_int_def float_of_nat [OF assms(1)])
qed

lemma split_indices_eq:
  assumes "n \<le> 2 ^ 1023"
  shows "split_indices n = Inr (int (train_count n), int (train_count n) + int (val_count n))"
proof -
  have a: "0 \<le> nearest (3152519739159347 / 4503599627370496 * nearest (of_nat n))"
    by (intro nearest_nonneg mult_nonneg_nonneg) simp_all
  have b: "0 \<le> nearest (5404319552844595 / 36028797018963968 * nearest (of_nat n))"
    by (intro nearest_nonneg mult_nonneg_nonneg) simp_all
  show ?thesis
    using a b
    by (simp add: split_indices_def train_ratio_def val_ratio_def mul_ratio_nat [OF assms]
        train_count_def val_count_def)
qed

lemma take_min_length: "take (min a (length xs)) xs = take a xs"
  by (cases "a \<le> length xs") (simp_all add: min_def)

lemma drop_min_length: "drop (min a (length xs)) xs = drop a xs"
  by (cases "a \<le> length xs") (simp_all add: min_def)

lemma slice_prefix: "py_slice xs None (Some (int a)) = take a xs"
  by (simp add: py_slice_def slice_bound_def take_min_length)

lemma slice_suffix: "py_slice xs (Some (int a)) None = drop a xs"
  by (simp add: py_slice_def slice_bound_def drop_min_length)

lemma slice_middle: "py_slice xs (Some (int a)) (Some (int a + int b)) = take b (drop a xs)"
proof -
  have "py_slice xs (Some (int a)) (Some (int (a + b)))
      = take (min (a + b) (length xs) - min a (length xs)) (drop (min a (length xs)) xs)"
    by (simp add: py_slice_def slice_bound_def Let_def nat_add_distrib)
  also have "\<dots> = take b (drop a xs)"
  proof (cases "a \<le> length xs")
    case True
    then have "min (a + b) (length xs) - a = min b (length xs - a)" by simp
    moreover have "take (min b (length (drop a xs))) (drop a xs) = take b (drop a xs)"
      by (rule take_min_length)
    ultimately show ?thesis using True by (simp add: min_absorb1)
  next
    case False
    then show ?thesis by simp
  qed
  finally show ?thesis by simp
qed

lemma data_splits_eq:
  assumes "length xs \<le> 2 ^ 1023"
  shows "data_splits xs =
    Inr [(''train'', take (train_count (length xs)) xs),
         (''val'', take (val_count (length xs)) (drop (train_count (length xs)) xs)),
         (''test'', drop (train_count (length xs) + val_count (length xs)) xs)]"
  using slice_suffix [of xs "train_count (length xs) + val_count (length xs)"]
  by (simp add: data_splits_def split_indices_eq [OF assms] slice_prefix slice_middle)

lemma three_slices: "take a xs @ take b (drop a xs) @ drop (a + b) xs = xs"
  by (metis append.assoc append_take_drop_id take_add)

lemma nearest_upper:
  assumes "2 powi k \<le> q" and "- 1022 \<le> k"
  shows "nearest q \<le> q * (1 + 1 / 2 ^ 53)"
proof -
  have "(2::rat) powi (- 1022) \<le> 2 powi k" using assms(2) by (simp only: pw2_le_iff)
  with assms(1) have "2 powi (- 1022) \<le> q" by linarith
  then have "\<bar>nearest q - q\<bar> \<le> q / 2 ^ 53" by (rule nearest_rel_err)
  then have "nearest q \<le> q + q / 2 ^ 53" by linarith
  then show ?thesis by (simp add: algebra_simps)
qed

lemma counts_le:
  assumes "n \<le> 2 ^ 1023"
  shows "train_count n + val_count n \<le> n"
proof (cases "n = 0")
  case True
  then show ?thesis by (simp add: train_count_def val_count_def nearest_0)
next
  case False
  define q :: rat where "q = of_nat n"
  define x where "x = nearest q"
  define tr :: rat where "tr = 3152519739159347 / 4503599627370496"
  define vr :: rat where "vr = 5404319552844595 / 36028797018963968"
  define c :: rat where "c = 1 + 1 / 2 ^ 53"
  have q1: "2 powi 0 \<le> q" using False by (simp add: q_def)
  have x1: "1 \<le> x" using nearest_ge_pw2 [OF q1] by (simp add: x_def)
  have xq: "x \<le> q * c" unfolding x_def c_def using q1 by (rule nearest_upper) simp
  have "2 powi (- 1) \<le> tr * 1" by (simp add: tr_def)
  also have "tr * 1 \<le> tr * x" using x1 by (intro mult_left_mono) (simp_all add: tr_def)
  finally have "nearest (tr * x) \<le> tr * x * c" unfolding c_def by (rule nearest_upper) simp
  moreover have "2 powi (- 3) \<le> vr * 1" by (simp add: vr_def)
  then have "2 powi (- 3) \<le> vr * x"
    using mult_left_mono [OF x1, of vr] by (simp add: vr_def)
  then have "nearest (vr * x) \<le> vr * x * c" unfolding c_def by (rule nearest_upper) simp
  ultimately have "nearest (tr * x) + nearest (vr * x) \<le> (tr + vr) * c * x"
    by (simp add: algebra_simps)
  also have "\<dots> \<le> (tr + vr) * c * (q * c)"
    using xq by (intro mult_left_mono) (simp_all add: tr_def vr_def c_def)
  also have "\<dots> = ((tr + vr) * c * c) * q" by simp
  also have "\<dots> \<le> 1 * q"
  proof (rule mult_right_mono)
    show "(tr + vr) * c * c \<le> 1" by (simp add: tr_def vr_def c_def)
    show "0 \<le> q" by (simp add: q_def)
  qed
  finally have s: "nearest (tr * x) + nearest (vr * x) \<le> q" by simp
  have a0: "0 \<le> nearest (tr * x)" and b0: "0 \<le> nearest (vr * x)"
    using x1 by (intro nearest_nonneg mult_nonneg_nonneg; simp add: tr_def vr_def)+
  have "of_int (\<lfloor>nearest (tr * x)\<rfloor> + \<lfloor>nearest (vr * x)\<rfloor>) \<le> nearest (tr * x) + nearest (vr * x)"
    by (simp add: add_mono)
  with s have "(of_int (\<lfloor>nearest (tr * x)\<rfloor> + \<lfloor>nearest (vr * x)\<rfloor>) :: rat) \<le> of_int (int n)"
    by (simp add: q_def)
  then have ab: "\<lfloor>nearest (tr * x)\<rfloor> + \<lfloor>nearest (vr * x)\<rfloor> \<le> int n" by (simp only: of_int_le_iff)
  have fa: "0 \<le> \<lfloor>nearest (tr * x)\<rfloor>" and fb: "0 \<le> \<lfloor>nearest (vr * x)\<rfloor>"
    using a0 b0 by simp_all
  have "train_count n = nat \<lfloor>nearest (tr * x)\<rfloor>" "val_count n = nat \<lfloor>nearest (vr * x)\<rfloor>"
    by (simp_all only: train_count_def val_count_def tr_def vr_def x_def q_def)
  then show ?thesis using ab fa fb by linarith
qed

subsection \<open>The configured ratios\<close>

lemma train_ratio_nearest: "train_ratio = nearest_float (70 / 100)"
proof -
  have "nearest (7 / 10) = of_int 6305039478318694 * 2 powi (- 1 - 52)"
    by (rule nearest_eqI) simp_all
  then have "nearest (7 / 10) = 3152519739159347 / 4503599627370496" by simp
  then show ?thesis by (simp add: train_ratio_def nearest_float_def fl_round_def)
qed

lemma val_ratio_nearest: "val_ratio = nearest_float (15 / 100)" "test_ratio = nearest_float (15 / 100)"
proof -
  have "nearest (3 / 20) = of_int 5404319552844595 * 2 powi (- 3 - 52)"
    by (rule nearest_eqI) simp_all
  then have "nearest (3 / 20) = 5404319552844595 / 36028797018963968" by simp
  then show "val_ratio = nearest_float (15 / 100)" "test_ratio = nearest_float (15 / 100)"
    by (simp_all add: val_ratio_def test_ratio_def nearest_float_def fl_round_def)
qed

section \<open>The dataset split\<close>

text \<open>
  Claim C2. For every list of distinct annotation file names (of any length a Python list can
  have, in particular 0, 1 and 2) the split returns three subsets \<open>train\<close>, \<open>val\<close> and
  \<open>test\<close> that are pairwise disjoint, whose union is the set of all names, and whose lengths
  add up to the length of the list.
\<close>

theorem split_partition:
  assumes "distinct xs" and "length xs \<le> 2 ^ 1023"
  shows "\<exists>train val test.
     data_splits xs = Inr [(''train'', train), (''val'', val), (''test'', test)] \<and>
     set train \<inter> set val = {} \<and> set train \<inter> set test = {} \<and> set val \<inter> set test = {} \<and>
     set train \<union> set val \<union> set test = set xs \<and>
     length train + length val + length test = length xs"
proof -
  define a where "a = train_count (length xs)"
  define b where "b = val_count (length xs)"
  define train where "train = take a xs"
  define val where "val = take b (drop a xs)"
  define test where "test = drop (a + b) xs"
  have whole: "train @ val @ test = xs"
    unfolding train_def val_def test_def by (rule three_slices)
  then have d: "distinct (train @ val @ test)" using assms(1) by simp
  have "data_splits xs = Inr [(''train'', train), (''val'', val), (''test'', test)]"
    unfolding train_def val_def test_def a_def b_def using assms(2) by (rule data_splits_eq)
  moreover have "set train \<inter> set val = {}" "set train \<inter> set test = {}" "set val \<inter> set test = {}"
    using d by auto
  moreover have "set train \<union> set val \<union> set test = set (train @ val @ test)" by auto
  moreover have "length train + length val + length test = length (train @ val @ test)" by simp
  ultimately show ?thesis unfolding whole by blast
qed

theorem split_partition_witness:
  "distinct [''a.xml'', ''b.xml''] \<and> length [''a.xml'', ''b.xml''] \<le> 2 ^ 1023 \<and>
   (\<exists>train val test.
     data_splits [''a.xml'', ''b.xml''] = Inr [(''train'', train), (''val'', val), (''test'', test)] \<and>
     set train \<inter> set val = {} \<and> set train \<inter> set test = {} \<and> set val \<inter> set test = {} \<and>
     set train \<union> set val \<union> set test = set [''a.xml'', ''b.xml''] \<and>
     length train + length val + length test = length [''a.xml'', ''b.xml''])"
proof -
  have d: "distinct [''a.xml'', ''b.xml'']" by simp
  have l: "length [''a.xml'', ''b.xml''] \<le> 2 ^ 1023" by simp
  from split_partition [OF d l] d l show ?thesis by blast
qed

lemma nearest_90: "nearest 90 = 90"
  using nearest_of_int [of 90] by simp

lemma train_count_90: "train_count 90 = 62"
proof -
  have "nearest (141863388262170615 / 2251799813685248)
      = of_int 8866461766385663 * 2 powi (5 - 52)"
    by (rule nearest_eqI) simp_all
  also have "\<dots> = 8866461766385663 / 140737488355328" by simp
  finally have n: "nearest (141863388262170615 / 2251799813685248)
      = 8866461766385663 / 140737488355328" .
  have f: "\<lfloor>8866461766385663 / 140737488355328 :: rat\<rfloor> = 62"
    by (simp add: floor_eq_iff)
  show ?thesis by (simp add: train_count_def nearest_90 n f)
qed

lemma val_count_90: "val_count 90 = 13"
proof -
  have "nearest (243194379878006775 / 18014398509481984)
      = of_int 7599824371187712 * 2 powi (3 - 52)"
    by (rule nearest_eqI) simp_all
  also have "\<dots> = 27 / 2" by simp
  finally have n: "nearest (243194379878006775 / 18014398509481984) = 27 / 2" .
  have f: "\<lfloor>27 / 2 :: rat\<rfloor> = 13"
    by (simp add: floor_eq_iff)
  show ?thesis by (simp add: val_count_def nearest_90 n f)
qed

text \<open>
  Claim C5, as amended. For every list of \<open>N\<close> file names the split cuts contiguous slices
  at \<open>train_end = int(0.70 * N)\<close> and \<open>val_end = train_end + int(0.15 * N)\<close>, where the
  products are binary64 products of the binary64 numbers nearest to 0.70 and 0.15, and
  \<open>int\<close> takes the integer part: \<open>train\<close> has \<open>train_end\<close> items, \<open>val\<close> has
  \<open>val_end - train_end\<close> items and \<open>test\<close> receives the remaining \<open>N - val_end\<close> items.
\<close>

theorem split_lengths:
  assumes "length xs \<le> 2 ^ 1023"
  shows "\<exists>a b train val test.
     py_mul_float_int train_ratio (int (length xs)) = Inr (Finite False a) \<and>
     py_mul_float_int val_ratio (int (length xs)) = Inr (Finite False b) \<and>
     data_splits xs = Inr [(''train'', train), (''val'', val), (''test'', test)] \<and>
     train = take (nat \<lfloor>a\<rfloor>) xs \<and>
     val = take (nat \<lfloor>b\<rfloor>) (drop (nat \<lfloor>a\<rfloor>) xs) \<and>
     test = drop (nat \<lfloor>a\<rfloor> + nat \<lfloor>b\<rfloor>) xs \<and>
     int (length train) = \<lfloor>a\<rfloor> \<and> int (length val) = \<lfloor>b\<rfloor> \<and>
     int (length test) = int (length xs) - (\<lfloor>a\<rfloor> + \<lfloor>b\<rfloor>)"
proof -
  define n where "n = length xs"
  define a where "a = nearest (3152519739159347 / 4503599627370496 * nearest (of_nat n))"
  define b where "b = nearest (5404319552844595 / 36028797018963968 * nearest (of_nat n))"
  have n: "n \<le> 2 ^ 1023" using assms by (simp add: n_def)
  have a0: "0 \<le> a" unfolding a_def by (intro nearest_nonneg mult_nonneg_nonneg) simp_all
  have b0: "0 \<le> b" unfolding b_def by (intro nearest_nonneg mult_nonneg_nonneg) simp_all
  have ta: "train_count n = nat \<lfloor>a\<rfloor>" by (simp only: train_count_def a_def)
  have vb: "val_count n = nat \<lfloor>b\<rfloor>" by (simp only: val_count_def b_def)
  have le: "nat \<lfloor>a\<rfloor> + nat \<lfloor>b\<rfloor> \<le> n" using counts_le [OF n] by (simp only: ta vb)
  have fa: "0 \<le> \<lfloor>a\<rfloor>" and fb: "0 \<le> \<lfloor>b\<rfloor>" using a0 b0 by simp_all
  have m1: "py_mul_float_int train_ratio (int (length xs)) = Inr (Finite False a)"
    unfolding train_ratio_def a_def n_def [symmetric] using n by (intro mul_ratio_nat) simp_all
  have m2: "py_mul_float_int val_ratio (int (length xs)) = Inr (Finite False b)"
    unfolding val_ratio_def b_def n_def [symmetric] using n by (intro mul_ratio_nat) simp_all
  have ds: "data_splits xs = Inr [(''train'', take (nat \<lfloor>a\<rfloor>) xs),
      (''val'', take (nat \<lfloor>b\<rfloor>) (drop (nat \<lfloor>a\<rfloor>) xs)),
      (''test'', drop (nat \<lfloor>a\<rfloor> + nat \<lfloor>b\<rfloor>) xs)]"
    using data_splits_eq [OF assms] by (simp only: n_def [symmetric] ta vb)
  have l1: "int (length (take (nat \<lfloor>a\<rfloor>) xs)) = \<lfloor>a\<rfloor>"
    using le fa by (simp add: n_def)
  have l2: "int (length (take (nat \<lfloor>b\<rfloor>) (drop (nat \<lfloor>a\<rfloor>) xs))) = \<lfloor>b\<rfloor>"
    using le fb by (simp add: n_def)
  have l3: "int (length (drop (nat \<lfloor>a\<rfloor> + nat \<lfloor>b\<rfloor>) xs)) = int (length xs) - (\<lfloor>a\<rfloor> + \<lfloor>b\<rfloor>)"
    using le fa fb by (simp add: n_def)
  from m1 m2 ds l1 l2 l3 show ?thesis by blast
qed

theorem split_lengths_witness:
  "length [''a.xml'', ''b.xml''] \<le> 2 ^ 1023 \<and>
   (\<exists>a b train val test.
     py_mul_float_int train_ratio (int (length [''a.xml'', ''b.xml''])) = Inr (Finite False a) \<and>
     py_mul_float_int val_ratio (int (length [''a.xml'', ''b.xml''])) = Inr (Finite False b) \<and>
     data_splits [''a.xml'', ''b.xml''] = Inr [(''train'', train), (''val'', val), (''test'', test)] \<and>
     train = take (nat \<lfloor>a\<rfloor>) [''a.xml'', ''b.xml''] \<and>
     val = take (nat \<lfloor>b\<rfloor>) (drop (nat \<lfloor>a\<rfloor>) [''a.xml'', ''b.xml'']) \<and>
     test = drop (nat \<lfloor>a\<rfloor> + nat \<lfloor>b\<rfloor>) [''a.xml'', ''b.xml''] \<and>
     int (length train) = \<lfloor>a\<rfloor> \<and> int (length val) = \<lfloor>b\<rfloor> \<and>
     int (length test) = int (length [''a.xml'', ''b.xml'']) - (\<lfloor>a\<rfloor> + \<lfloor>b\<rfloor>))"
proof -
  have l: "length [''a.xml'', ''b.xml''] \<le> 2 ^ 1023" by simp
  from split_lengths [OF l] l show ?thesis by blast
qed

lemma rhe_half: "round_half_even (of_int f + 1 / 2) = (if even f then f else f + 1)"
proof -
  have "\<lfloor>1 / 2 :: rat\<rfloor> = 0" by (simp add: floor_eq_iff)
  then show ?thesis by (simp add: round_half_even_def Let_def)
qed

lemma nearest_10: "nearest 10 = 10"
  using nearest_of_int [of 10] by simp

lemma train_count_10: "train_count 10 = 7"
proof -
  define q :: rat where "q = 15762598695796735 / 2251799813685248"
  have e: "ilog2 q = 2" by (rule ilog2_eqI) (simp_all add: q_def)
  then have u: "ulp q = 2 powi (2 - 52)" by (simp add: ulp_def)
  have "q / ulp q = of_int 7881299347898367 + 1 / 2" unfolding u by (simp add: q_def)
  then have "round_half_even (q / ulp q) = 7881299347898368" by (simp only: rhe_half) simp
  then have "nearest q = 7" unfolding nearest_def u by simp
  then show ?thesis by (simp add: train_count_def nearest_10 q_def)
qed

lemma val_count_10: "val_count 10 = 1"
proof -
  have "nearest (27021597764222975 / 18014398509481984)
      = of_int 6755399441055744 * 2 powi (0 - 52)"
    by (rule nearest_eqI) simp_all
  also have "\<dots> = 3 / 2" by simp
  finally have n: "nearest (27021597764222975 / 18014398509481984) = 3 / 2" .
  have f: "\<lfloor>3 / 2 :: rat\<rfloor> = 1" by (simp add: floor_eq_iff)
  show ?thesis by (simp add: val_count_def nearest_10 n f)
qed

text \<open>
  Claim C5 as the specification states it, with \<open>train_end = floor(train_ratio * N)\<close>,
  fails whichever number the ratio is read as. For 90 files the binary64 product
  \<open>0.70 * 90\<close> is just below 63, so the code puts 62 files into \<open>train\<close>, where the floor
  of seven tenths of 90 is 63. For 10 files the binary64 product \<open>0.70 * 10\<close> rounds up to 7,
  so the code puts 7 files into \<open>train\<close>, where the floor of 10 times the binary64 number
  nearest to 0.70, which is below seven tenths, is 6.
\<close>

theorem split_floor_counterexample:
  "split_indices 90 = Inr (62, 75) \<and> spec_split_points (70 / 100) (15 / 100) 90 = (63, 76) \<and>
   split_indices 10 = Inr (7, 8) \<and>
   spec_split_points (3152519739159347 / 4503599627370496)
     (5404319552844595 / 36028797018963968) 10 = (6, 7)"
proof -
  have "(90::nat) \<le> 2 ^ 1023" by simp
  then have a: "split_indices 90
      = Inr (int (train_count 90), int (train_count 90) + int (val_count 90))"
    by (rule split_indices_eq)
  have "(10::nat) \<le> 2 ^ 1023" by simp
  then have b: "split_indices 10
      = Inr (int (train_count 10), int (train_count 10) + int (val_count 10))"
    by (rule split_indices_eq)
  have f: "\<lfloor>70 / 100 * (90::rat)\<rfloor> = 63" "\<lfloor>15 / 100 * (90::rat)\<rfloor> = 13"
    "\<lfloor>3152519739159347 / 4503599627370496 * (10::rat)\<rfloor> = 6"
    "\<lfloor>5404319552844595 / 36028797018963968 * (10::rat)\<rfloor> = 1"
    by (simp_all add: floor_eq_iff)
  show ?thesis
    using f by (simp add: a b train_count_90 val_count_90 train_count_10 val_count_10
        spec_split_points_def)
qed

section \<open>The coordinate converter on small integers\<close>

lemma of_int_le_pow2: "n \<le> 2 ^ k \<Longrightarrow> (of_int n :: rat) \<le> 2 ^ k"
  by (metis of_int_le_iff of_int_numeral of_int_power)

lemma fl_round_of_int:
  assumes "0 \<le> n" and "n \<le> 2 ^ 53"
  shows "fl_round s (of_int n) = Finite s (of_int n)"
proof -
  have "(of_int n :: rat) \<le> 2 ^ 53" using assms(2) by (rule of_int_le_pow2)
  moreover have "(2::rat) ^ 53 < 2 ^ 1024" by simp
  ultimately have "(of_int n :: rat) < 2 ^ 1024" by linarith
  then show ?thesis by (simp add: fl_round_def nearest_of_int [OF assms])
qed

lemma float_of_int_exact:
  assumes "\<bar>n\<bar> \<le> 2 ^ 53"
  shows "float_of_int n = Inr (Finite (n < 0) (of_int \<bar>n\<bar>))"
  using fl_round_of_int [of "\<bar>n\<bar>" "n < 0"] assms by (simp add: float_of_int_def)

lemma mul_two_exact:
  assumes "\<bar>w\<bar> \<le> 2 ^ 52"
  shows "py_mul_float_int (Finite False 2) w = Inr (Finite (w < 0) (of_int (2 * \<bar>w\<bar>)))"
proof -
  have "\<bar>w\<bar> \<le> 2 ^ 53" using assms by simp
  then have f: "float_of_int w = Inr (Finite (w < 0) (of_int \<bar>w\<bar>))" by (rule float_of_int_exact)
  have "fl_round (w < 0) (of_int (2 * \<bar>w\<bar>)) = Finite (w < 0) (of_int (2 * \<bar>w\<bar>))"
    using assms by (intro fl_round_of_int) simp_all
  then show ?thesis by (simp add: py_mul_float_int_def f)
qed

lemma quotient_finite:
  assumes "0 \<le> a" and "a \<le> 2 ^ 53" and "1 \<le> b"
  shows "fl_round s (of_int a / of_int b) = Finite s (nearest (of_int a / of_int b))"
proof -
  have b: "(1::rat) \<le> of_int b" using assms(3) by simp
  have a: "(0::rat) \<le> of_int a" using assms(1) by simp
  have "(of_int a :: rat) / of_int b \<le> of_int a / 1"
    using a b by (intro divide_left_mono) simp_all
  also have "\<dots> \<le> 2 ^ 53" using of_int_le_pow2 [OF assms(2)] by simp
  also have "(2::rat) ^ 53 \<le> 2 ^ 1023" by simp
  finally have "(of_int a :: rat) / of_int b \<le> 2 ^ 1023" .
  moreover have "(0::rat) \<le> of_int a / of_int b" using a b by simp
  ultimately show ?thesis by (intro fl_round_small)
qed

lemma center_exact:
  assumes "\<bar>n\<bar> \<le> 2 ^ 53" and "0 < w" and "w \<le> 2 ^ 52"
  shows "py_truediv_int_float n (Finite False (of_int (2 * w)))
    = Inr (Finite (n < 0) (nearest (of_int \<bar>n\<bar> / of_int (2 * w))))"
proof -
  have f: "float_of_int n = Inr (Finite (n < 0) (of_int \<bar>n\<bar>))"
    using assms(1) by (rule float_of_int_exact)
  have "fl_round (n < 0) (of_int \<bar>n\<bar> / of_int (2 * w))
      = Finite (n < 0) (nearest (of_int \<bar>n\<bar> / of_int (2 * w)))"
    using assms by (intro quotient_finite) simp_all
  moreover have "(of_int (2 * w) :: rat) \<noteq> 0" using assms(2) by simp
  ultimately show ?thesis by (simp add: py_truediv_int_float_def f)
qed

lemma extent_exact:
  assumes "\<bar>a\<bar> \<le> 2 ^ 53" and "0 < w"
  shows "py_truediv_int_int a w = Inr (Finite (a < 0) (nearest (of_int \<bar>a\<bar> / of_int w)))"
proof -
  have "fl_round (a < 0) (of_int \<bar>a\<bar> / of_int w)
      = Finite (a < 0) (nearest (of_int \<bar>a\<bar> / of_int w))"
    using assms by (intro quotient_finite) simp_all
  moreover have "\<bar>w\<bar> = w" "\<not> w < 0" "w \<noteq> 0" using assms(2) by simp_all
  ultimately show ?thesis by (simp add: py_truediv_int_int_def)
qed

lemma convert_small:
  assumes "0 < w" and "w \<le> 2 ^ 52" and "0 < h" and "h \<le> 2 ^ 52"
    and "\<bar>xmin + xmax\<bar> \<le> 2 ^ 53" and "\<bar>ymin + ymax\<bar> \<le> 2 ^ 53"
    and "\<bar>xmax - xmin\<bar> \<le> 2 ^ 53" and "\<bar>ymax - ymin\<bar> \<le> 2 ^ 53"
  shows "convert_to_yolo_format (w, h) (xmin, xmax, ymin, ymax) =
    Inr (Finite (xmin + xmax < 0) (nearest (of_int \<bar>xmin + xmax\<bar> / of_int (2 * w))),
         Finite (ymin + ymax < 0) (nearest (of_int \<bar>ymin + ymax\<bar> / of_int (2 * h))),
         Finite (xmax - xmin < 0) (nearest (of_int \<bar>xmax - xmin\<bar> / of_int w)),
         Finite (ymax - ymin < 0) (nearest (of_int \<bar>ymax - ymin\<bar> / of_int h)))"
proof -
  have mw: "py_mul_float_int (Finite False 2) w = Inr (Finite False (of_int (2 * w)))"
    using mul_two_exact [of w] assms(1,2) by simp
  have mh: "py_mul_float_int (Finite False 2) h = Inr (Finite False (of_int (2 * h)))"
    using mul_two_exact [of h] assms(3,4) by simp
  show ?thesis
    unfolding convert_to_yolo_format_def
    by (simp only: prod.case mw mh sum.case center_exact [OF assms(5) assms(1,2)]
        center_exact [OF assms(6) assms(3,4)] extent_exact [OF assms(7) assms(1)]
        extent_exact [OF assms(8) assms(3)])
qed

lemma nearest_15_64: "nearest (15 / 64) = 15 / 64"
proof -
  have "nearest (15 / 64) = of_int 8444249301319680 * 2 powi (- 3 - 52)"
    by (rule nearest_eqI) simp_all
  then show ?thesis by simp
qed

lemma nearest_5_32: "nearest (5 / 32) = 5 / 32"
proof -
  have "nearest (5 / 32) = of_int 5629499534213120 * 2 powi (- 3 - 52)"
    by (rule nearest_eqI) simp_all
  then show ?thesis by simp
qed

lemma nearest_5_24: "nearest (5 / 24) = 7505999378950827 / 36028797018963968"
proof -
  have "nearest (5 / 24) = of_int 7505999378950827 * 2 powi (- 3 - 52)"
    by (rule nearest_eqI) simp_all
  then show ?thesis by simp
qed

lemma convert_example:
  "convert_to_yolo_format (640, 480) (100, 200, 50, 150) =
     Inr (Finite False (15 / 64), Finite False (7505999378950827 / 36028797018963968),
          Finite False (5 / 32), Finite False (7505999378950827 / 36028797018963968))"
proof -
  have "convert_to_yolo_format (640, 480) (100, 200, 50, 150) =
    Inr (Finite (100 + 200 < (0::int)) (nearest (of_int \<bar>100 + 200\<bar> / of_int (2 * 640))),
         Finite (50 + 150 < (0::int)) (nearest (of_int \<bar>50 + 150\<bar> / of_int (2 * 480))),
         Finite (200 - 100 < (0::int)) (nearest (of_int \<bar>200 - 100\<bar> / of_int 640)),
         Finite (150 - 50 < (0::int)) (nearest (of_int \<bar>150 - 50\<bar> / of_int 480)))"
    by (rule convert_small) simp_all
  then show ?thesis by (simp add: nearest_15_64 nearest_5_32 nearest_5_24)
qed

lemma scaled_15_64: "scaled_6f (15 / 64) = 234375"
proof -
  have "round_half_even (15 / 64 * 10 ^ 6) = 234375" by (rule rhe_eqI) simp
  then show ?thesis by (simp add: scaled_6f_def)
qed

lemma scaled_5_32: "scaled_6f (5 / 32) = 156250"
proof -
  have "round_half_even (5 / 32 * 10 ^ 6) = 156250" by (rule rhe_eqI) simp
  then show ?thesis by (simp add: scaled_6f_def)
qed

lemma scaled_5_24: "scaled_6f (7505999378950827 / 36028797018963968) = 208333"
proof -
  have "round_half_even (7505999378950827 / 36028797018963968 * 10 ^ 6) = 208333"
    by (rule rhe_eqI) simp
  then show ?thesis by (simp add: scaled_6f_def)
qed

lemma format_line_example:
  "format_line 0 (Finite False (15 / 64), Finite False (7505999378950827 / 36028797018963968),
      Finite False (5 / 32), Finite False (7505999378950827 / 36028797018963968))
   = ''0 0.234375 0.208333 0.156250 0.208333'' @ [CHR 0x0A]"
  by (simp add: format_line_def scaled_15_64 scaled_5_32 scaled_5_24 digit_char_def zero_pad_def
      show_nat.simps)

section \<open>The annotation parser\<close>

subsection \<open>Floats returned by the conversion are finite\<close>

lemma fl_round_cases:
  "fl_round s q = Finite s (nearest q) \<and> nearest q < 2 ^ 1024 \<or> fl_round s q = Infinity s"
  by (simp add: fl_round_def)

lemma float_of_int_Inr:
  assumes "float_of_int n = Inr f"
  shows "f = Finite (n < 0) (nearest (of_int \<bar>n\<bar>)) \<and> nearest (of_int \<bar>n\<bar>) < 2 ^ 1024"
  using assms fl_round_cases [of "n < 0" "of_int \<bar>n\<bar>"]
  by (auto simp add: float_of_int_def)

lemma truediv_int_int_Inr:
  assumes "py_truediv_int_int a b = Inr f"
  shows "\<exists>s r. f = Finite s r"
  using assms fl_round_cases [of "(a < 0) \<noteq> (b < 0)" "of_int \<bar>a\<bar> / of_int \<bar>b\<bar>"]
  by (auto simp add: py_truediv_int_int_def split: if_splits)

lemma mul_two_Inr:
  assumes "py_mul_float_int (Finite False 2) w = Inr d"
  shows "(\<exists>s. d = Finite s 0) \<or> (\<exists>s r. d = Finite s r \<and> 2 \<le> r) \<or> (\<exists>s. d = Infinity s)"
proof -
  obtain f where f: "float_of_int w = Inr f" and d: "d = float_mul (Finite False 2) f"
    using assms by (auto simp add: py_mul_float_int_def split: sum.splits)
  define x where "x = nearest (of_int \<bar>w\<bar>)"
  have fx: "f = Finite (w < 0) x" using float_of_int_Inr [OF f] by (simp add: x_def)
  have dd: "d = fl_round (w < 0) (2 * x)" by (simp add: d fx)
  show ?thesis
  proof (cases "w = 0")
    case True
    then have "x = 0" by (simp add: x_def nearest_0)
    then have "d = Finite (w < 0) 0" by (simp add: dd fl_round_def nearest_0)
    then show ?thesis by blast
  next
    case False
    then have "(2::rat) powi 0 \<le> of_int \<bar>w\<bar>" by simp
    then have "2 powi 0 \<le> x" unfolding x_def by (rule nearest_ge_pw2) simp
    then have "2 powi 1 \<le> 2 * x" by simp
    then have "2 powi 1 \<le> nearest (2 * x)" by (rule nearest_ge_pw2) simp
    then have "2 \<le> nearest (2 * x)" by simp
    with fl_round_cases [of "w < 0" "2 * x"] show ?thesis unfolding dd by auto
  qed
qed

lemma truediv_int_float_Inr:
  assumes "py_truediv_int_float n d = Inr f"
    and "(\<exists>s. d = Finite s 0) \<or> (\<exists>s r. d = Finite s r \<and> 2 \<le> r) \<or> (\<exists>s. d = Infinity s)"
  shows "\<exists>s r. f = Finite s r"
proof -
  obtain g where g: "float_of_int n = Inr g" and f: "float_truediv g d = Inr f"
    using assms(1) by (auto simp add: py_truediv_int_float_def split: sum.splits)
  define y where "y = nearest (of_int \<bar>n\<bar>)"
  have gy: "g = Finite (n < 0) y" and y: "y < 2 ^ 1024"
    using float_of_int_Inr [OF g] by (simp_all add: y_def)
  have y0: "0 \<le> y" unfolding y_def by (rule nearest_nonneg) simp
  from assms(2) show ?thesis
  proof (elim disjE exE conjE)
    fix s assume "d = Finite s 0"
    with f gy show ?thesis by simp
  next
    fix s r assume d: "d = Finite s r" and r: "2 \<le> r"
    have "y / r \<le> y / 2" using r y0 by (intro divide_left_mono) simp_all
    also have "\<dots> \<le> 2 ^ 1023" using y by simp
    finally have "y / r \<le> 2 ^ 1023" .
    moreover have "0 \<le> y / r" using r y0 by simp
    ultimately have "fl_round ((n < 0) \<noteq> s) (y / r) = Finite ((n < 0) \<noteq> s) (nearest (y / r))"
      by (intro fl_round_small)
    with f gy d r show ?thesis by auto
  next
    fix s assume "d = Infinity s"
    with f gy show ?thesis by auto
  qed
qed

lemma convert_finite:
  assumes "convert_to_yolo_format img_size box = Inr (a, b, c, d)"
  shows "(\<exists>s r. a = Finite s r) \<and> (\<exists>s r. b = Finite s r) \<and> (\<exists>s r. c = Finite s r)
    \<and> (\<exists>s r. d = Finite s r)"
proof -
  obtain w h where sz: "img_size = (w, h)" by (cases img_size)
  obtain xmin xmax ymin ymax where bx: "box = (xmin, xmax, ymin, ymax)" by (cases box) auto
  from assms obtain dw dh where
    dw: "py_mul_float_int (Finite False 2) w = Inr dw" and
    a: "py_truediv_int_float (xmin + xmax) dw = Inr a" and
    dh: "py_mul_float_int (Finite False 2) h = Inr dh" and
    b: "py_truediv_int_float (ymin + ymax) dh = Inr b" and
    c: "py_truediv_int_int (xmax - xmin) w = Inr c" and
    d: "py_truediv_int_int (ymax - ymin) h = Inr d"
    unfolding convert_to_yolo_format_def sz bx
    by (auto split: sum.splits)
  from truediv_int_float_Inr [OF a mul_two_Inr [OF dw]]
    truediv_int_float_Inr [OF b mul_two_Inr [OF dh]]
    truediv_int_int_Inr [OF c] truediv_int_int_Inr [OF d]
  show ?thesis by blast
qed

subsection \<open>The list index\<close>

lemma py_index_Inr:
  "py_index xs x = Inr i \<Longrightarrow> i < length xs \<and> xs ! i = x \<and> (\<forall>j < i. xs ! j \<noteq> x)"
proof (induction xs arbitrary: i)
  case Nil
  then show ?case by simp
next
  case (Cons y ys)
  show ?case
  proof (cases "y = x")
    case True
    with Cons.prems show ?thesis by simp
  next
    case False
    with Cons.prems obtain k where k: "py_index ys x = Inr k" and i: "i = Suc k"
      by (auto split: sum.splits)
    from Cons.IH [OF k] False show ?thesis
      by (auto simp add: i nth_Cons split: nat.splits)
  qed
qed


subsection \<open>One object\<close>

lemma box_failure_not_Emit: "box_failure p e \<noteq> Emit l"
  by (simp add: box_failure_def)

lemma process_object_Emit:
  assumes "process_object p classes img_size obj = Emit line"
  shows "\<exists>nm i box sa a sb b sc c sd d.
     find_elem obj ''name'' = Some nm \<and>
     py_index (map Some classes) (text_of nm) = Inr i \<and>
     convert_to_yolo_format img_size box = Inr (Finite sa a, Finite sb b, Finite sc c, Finite sd d) \<and>
     line = format_line i (Finite sa a, Finite sb b, Finite sc c, Finite sd d)"
proof -
  from assms obtain nm i xmin ymin xmax ymax yolo_box where
    nm: "find_elem obj ''name'' = Some nm" and
    i: "py_index (map Some classes) (text_of nm) = Inr i" and
    cv: "convert_to_yolo_format img_size (xmin, xmax, ymin, ymax) = Inr yolo_box" and
    line: "line = format_line i yolo_box"
    unfolding process_object_def
    by (auto simp add: box_failure_not_Emit split: option.splits sum.splits)
  obtain a b c d where yb: "yolo_box = (a, b, c, d)" by (cases yolo_box) auto
  from convert_finite [OF cv [unfolded yb]] obtain sa ra sb rb sc rc sd rd where
    "a = Finite sa ra" "b = Finite sb rb" "c = Finite sc rc" "d = Finite sd rd" by blast
  with nm i line yb cv show ?thesis by blast
qed


subsection \<open>The loop over the objects\<close>



lemma process_objects_lines:
  assumes "snd (process_objects p cl sz objs out acc) = Inr lines"
  shows "\<exists>new. lines = acc @ new \<and>
    (\<forall>l \<in> set new. \<exists>obj \<in> set objs. process_object p cl sz obj = Emit l)"
  using assms
proof (induction objs arbitrary: out acc)
  case Nil
  then show ?case by simp
next
  case (Cons obj objs)
  show ?case
  proof (cases "process_object p cl sz obj")
    case (Emit l)
    with Cons.prems have "snd (process_objects p cl sz objs out (acc @ [l])) = Inr lines" by simp
    from Cons.IH [OF this] obtain new where
      n: "lines = (acc @ [l]) @ new"
        "\<forall>l \<in> set new. \<exists>obj \<in> set objs. process_object p cl sz obj = Emit l" by blast
    have "lines = acc @ (l # new)" using n(1) by simp
    moreover have "\<forall>k \<in> set (l # new). \<exists>ob \<in> set (obj # objs). process_object p cl sz ob = Emit k"
      using n(2) Emit by auto
    ultimately show ?thesis by blast
  next
    case (Skip m)
    with Cons.prems have "snd (process_objects p cl sz objs (out @ [m]) acc) = Inr lines" by simp
    from Cons.IH [OF this] show ?thesis by auto
  next
    case (Raise e)
    with Cons.prems show ?thesis by simp
  qed
qed



subsection \<open>Decimal text\<close>

lemma digit_char_is_digit: "d < 10 \<Longrightarrow> is_digit (digit_char d)"
proof -
  assume "d < 10"
  then have "''0123456789'' ! d \<in> set ''0123456789''" by (intro nth_mem) simp
  moreover have "\<forall>c \<in> set ''0123456789''. is_digit c" by (simp add: is_digit_def)
  ultimately show ?thesis unfolding digit_char_def by blast
qed

lemma show_nat_digits: "show_nat n \<noteq> [] \<and> list_all is_digit (show_nat n)"
proof (induction n rule: show_nat.induct)
  case (1 n)
  show ?case
  proof (cases "n < 10")
    case True
    then show ?thesis by (simp add: show_nat.simps [of n] digit_char_is_digit)
  next
    case False
    with 1 show ?thesis by (simp add: show_nat.simps [of n] digit_char_is_digit)
  qed
qed

lemma length_show_nat: "0 < k \<Longrightarrow> n < 10 ^ k \<Longrightarrow> length (show_nat n) \<le> k"
proof (induction n arbitrary: k rule: show_nat.induct)
  case (1 n)
  show ?case
  proof (cases "n < 10")
    case True
    with 1(2) show ?thesis by (simp add: show_nat.simps [of n])
  next
    case False
    with 1(2,3) have k: "1 < k" by (cases "k = 1") auto
    then obtain j where j: "k = Suc j" "0 < j" by (cases k) auto
    have "n div 10 < 10 ^ j" using 1(3) j(1) by (simp add: less_mult_imp_div_less mult.commute)
    from 1(1) [OF False j(2) this] False show ?thesis
      by (simp add: show_nat.simps [of n] j(1))
  qed
qed

lemma zero_pad_digits:
  assumes "list_all is_digit s" and "length s \<le> k"
  shows "length (zero_pad k s) = k \<and> list_all is_digit (zero_pad k s)"
proof -
  have "is_digit (CHR ''0'')" by (simp add: is_digit_def)
  then show ?thesis using assms by (auto simp add: zero_pad_def list_all_iff)
qed

lemma is_decimal6_I:
  assumes "ip \<noteq> []" and "list_all is_digit ip" and "length fr = 6" and "list_all is_digit fr"
  shows "is_decimal6 (ip @ ''.'' @ fr)" and "is_decimal6 (''-'' @ ip @ ''.'' @ fr)"
proof -
  have nd: "\<not> is_digit (CHR ''.'')" by (simp add: is_digit_def)
  have d: "\<And>x. x \<in> set ip \<Longrightarrow> is_digit x" using assms(2) by (simp add: list_all_iff)
  have tw: "takeWhile is_digit (ip @ CHR ''.'' # fr) = ip"
    using d nd by (simp add: takeWhile_append2)
  have dw: "dropWhile is_digit (ip @ CHR ''.'' # fr) = CHR ''.'' # fr"
    using d nd by (simp add: dropWhile_append2)
  obtain c cs where ip: "ip = c # cs" using assms(1) by (cases ip) auto
  have "is_digit c" using d ip by simp
  then have c: "c \<noteq> CHR ''-''" by (auto simp add: is_digit_def)
  have "is_decimal6 (c # cs @ CHR ''.'' # fr)"
    using c tw dw assms(1,3,4) unfolding ip is_decimal6_def by simp
  then show "is_decimal6 (ip @ ''.'' @ fr)" by (simp add: ip)
  show "is_decimal6 (''-'' @ ip @ ''.'' @ fr)"
    using tw dw assms(1,3,4) unfolding is_decimal6_def by simp
qed

lemma format_6f_decimal6: "is_decimal6 (format_6f (Finite s r))"
proof -
  define ip where "ip = show_nat (scaled_6f r div 10 ^ 6)"
  define fr where "fr = zero_pad 6 (show_nat (scaled_6f r mod 10 ^ 6))"
  have ip: "ip \<noteq> []" "list_all is_digit ip" using show_nat_digits by (simp_all add: ip_def)
  have "length (show_nat (scaled_6f r mod 10 ^ 6)) \<le> 6"
    by (rule length_show_nat) simp_all
  then have fr: "length fr = 6" "list_all is_digit fr"
    using zero_pad_digits [of "show_nat (scaled_6f r mod 10 ^ 6)" 6] show_nat_digits
    by (simp_all add: fr_def)
  have "format_6f (Finite s r) = (if s then ''-'' @ ip @ ''.'' @ fr else ip @ ''.'' @ fr)"
    by (simp add: ip_def fr_def)
  then show ?thesis using is_decimal6_I [OF ip fr] by simp
qed

lemma format_6f_no_space: "CHR '' '' \<notin> set (format_6f (Finite s r))"
proof -
  have sp: "\<not> is_digit (CHR '' '')" by (simp add: is_digit_def)
  have a: "CHR '' '' \<notin> set (show_nat n)" for n
    using show_nat_digits [of n] sp by (auto simp add: list_all_iff)
  have "CHR '' '' \<notin> set (zero_pad 6 (show_nat n))" for n
    using a [of n] by (simp add: zero_pad_def)
  then show ?thesis using a by simp
qed

lemma show_nat_no_space: "CHR '' '' \<notin> set (show_nat n)"
proof -
  have "\<not> is_digit (CHR '' '')" by (simp add: is_digit_def)
  then show ?thesis using show_nat_digits [of n] by (auto simp add: list_all_iff)
qed

subsection \<open>Splitting a line\<close>

lemma split_on_none: "c \<notin> set a \<Longrightarrow> split_on c a = [a]"
  by (induction a) auto

lemma split_on_append: "c \<notin> set a \<Longrightarrow> split_on c (a @ c # rest) = a # split_on c rest"
  by (induction a) auto

lemma format_line_shape: "is_label_line (format_line i (Finite sa a, Finite sb b, Finite sc c, Finite sd d))"
proof -
  define fa where "fa = format_6f (Finite sa a)"
  define fb where "fb = format_6f (Finite sb b)"
  define fc where "fc = format_6f (Finite sc c)"
  define fd where "fd = format_6f (Finite sd d)"
  have ns: "CHR '' '' \<notin> set (show_nat i)" "CHR '' '' \<notin> set fa" "CHR '' '' \<notin> set fb"
    "CHR '' '' \<notin> set fc" "CHR '' '' \<notin> set fd"
    unfolding fa_def fb_def fc_def fd_def by (rule show_nat_no_space format_6f_no_space)+
  have d6: "is_decimal6 fa" "is_decimal6 fb" "is_decimal6 fc" "is_decimal6 fd"
    unfolding fa_def fb_def fc_def fd_def by (rule format_6f_decimal6)+
  have l: "format_line i (Finite sa a, Finite sb b, Finite sc c, Finite sd d)
      = (show_nat i @ CHR '' '' # fa @ CHR '' '' # fb @ CHR '' '' # fc @ CHR '' '' # fd) @ [CHR 0x0A]"
    by (simp only: format_line_def prod.case fa_def fb_def fc_def fd_def) simp
  have sp: "split_on (CHR '' '') (show_nat i @ CHR '' '' # fa @ CHR '' '' # fb @ CHR '' '' # fc @ CHR '' '' # fd)
      = [show_nat i, fa, fb, fc, fd]"
    by (simp only: split_on_append [OF ns(1)] split_on_append [OF ns(2)] split_on_append [OF ns(3)]
        split_on_append [OF ns(4)] split_on_none [OF ns(5)])
  show ?thesis
    unfolding l is_label_line_def
    using show_nat_digits [of i] d6 by (simp only: butlast_snoc last_snoc sp) simp
qed

lemma format_line_class_id:
  "takeWhile (\<lambda>c. c \<noteq> CHR '' '') (format_line i (a, b, c, d)) = show_nat i"
proof -
  have "\<And>x. x \<in> set (show_nat i) \<Longrightarrow> x \<noteq> CHR '' ''" using show_nat_no_space [of i] by auto
  then show ?thesis by (simp add: format_line_def takeWhile_append2)
qed

subsection \<open>The whole file\<close>


lemma process_xml_file_Inr:
  assumes "process_xml_file prs xml_path classes = (out, Inr lines)"
  shows "lines = [] \<or>
    (\<exists>root_node w h. prs xml_path = Inr root_node \<and>
       int_field (find_elem root_node ''size'') ''width'' = Inr w \<and>
       int_field (find_elem root_node ''size'') ''height'' = Inr h \<and>
       process_objects xml_path classes (w, h) (findall root_node ''object'') [] []
         = (out, Inr lines))"
  using assms unfolding process_xml_file_def
  by (auto split: sum.splits if_splits)

lemma process_objects_order:
  assumes "snd (process_objects p cl sz objs out acc) = Inr lines"
  shows "lines = acc @ concat (map (emitted_line p cl sz) objs)"
  using assms
proof (induction objs arbitrary: out acc)
  case Nil
  then show ?case by simp
next
  case (Cons obj objs)
  show ?case
  proof (cases "process_object p cl sz obj")
    case (Emit l)
    with Cons.prems Cons.IH [of out "acc @ [l]"] show ?thesis by (simp add: emitted_line_def)
  next
    case (Skip m)
    with Cons.prems Cons.IH [of "out @ [m]" acc] show ?thesis by (simp add: emitted_line_def)
  next
    case (Raise e)
    with Cons.prems show ?thesis by simp
  qed
qed

subsection \<open>The example\<close>

lemmas py_int_eval = py_int_def strip_def is_space_def is_digit_def digit_val_def
  max_str_digits_def

lemma example_object_fields:
  "find_elem example_object ''name'' = Some (Element ''name'' (Some ''pothole'') [])"
  "int_field (find_elem example_object ''bndbox'') ''xmin'' = Inr 100"
  "int_field (find_elem example_object ''bndbox'') ''ymin'' = Inr 50"
  "int_field (find_elem example_object ''bndbox'') ''xmax'' = Inr 200"
  "int_field (find_elem example_object ''bndbox'') ''ymax'' = Inr 150"
  by (simp_all add: example_object_def find_elem_def int_field_def py_int_eval)

lemma example_object_line:
  "process_object p CLASS_NAMES (640, 480) example_object
     = Emit (''0 0.234375 0.208333 0.156250 0.208333'' @ [CHR 0x0A])"
  by (simp add: process_object_def example_object_fields CLASS_NAMES_def convert_example
      format_line_example)

lemma example_size_fields:
  "int_field (Some example_size) ''width'' = Inr 640"
  "int_field (Some example_size) ''height'' = Inr 480"
  by (simp_all add: example_size_def find_elem_def int_field_def py_int_eval)

lemma example_lines:
  "process_xml_file (\<lambda>p. Inr example_doc) xml_path CLASS_NAMES
     = ([], Inr [''0 0.234375 0.208333 0.156250 0.208333'' @ [CHR 0x0A]])"
proof -
  have s: "find_elem example_doc ''size'' = Some example_size"
    by (simp add: example_doc_def find_elem_def example_size_def)
  have o: "findall example_doc ''object'' = [example_object]"
    by (simp add: example_doc_def findall_def example_size_def example_object_def)
  show ?thesis
    by (simp add: process_xml_file_def s o example_size_fields example_object_line)
qed

subsection \<open>What an object entry emits\<close>

lemma process_object_Emit_iff:
  "process_object p classes img_size obj = Emit line \<longleftrightarrow>
     (\<exists>nm i xmin ymin xmax ymax a b c d.
        find_elem obj ''name'' = Some nm \<and>
        py_index (map Some classes) (text_of nm) = Inr i \<and>
        int_field (find_elem obj ''bndbox'') ''xmin'' = Inr xmin \<and>
        int_field (find_elem obj ''bndbox'') ''ymin'' = Inr ymin \<and>
        int_field (find_elem obj ''bndbox'') ''xmax'' = Inr xmax \<and>
        int_field (find_elem obj ''bndbox'') ''ymax'' = Inr ymax \<and>
        convert_to_yolo_format img_size (xmin, xmax, ymin, ymax) = Inr (a, b, c, d) \<and>
        line = show_nat i @ '' '' @ format_6f a @ '' '' @ format_6f b @ '' '' @ format_6f c
                 @ '' '' @ format_6f d @ [CHR 0x0A])"
proof
  assume "process_object p classes img_size obj = Emit line"
  then obtain nm i xmin ymin xmax ymax yolo_box where
    f: "find_elem obj ''name'' = Some nm"
      "py_index (map Some classes) (text_of nm) = Inr i"
      "int_field (find_elem obj ''bndbox'') ''xmin'' = Inr xmin"
      "int_field (find_elem obj ''bndbox'') ''ymin'' = Inr ymin"
      "int_field (find_elem obj ''bndbox'') ''xmax'' = Inr xmax"
      "int_field (find_elem obj ''bndbox'') ''ymax'' = Inr ymax"
      "convert_to_yolo_format img_size (xmin, xmax, ymin, ymax) = Inr yolo_box" and
    line: "line = format_line i yolo_box"
    unfolding process_object_def
    by (auto simp add: box_failure_not_Emit split: option.splits sum.splits)
  obtain a b c d where yb: "yolo_box = (a, b, c, d)" by (cases yolo_box) auto
  have "line = show_nat i @ '' '' @ format_6f a @ '' '' @ format_6f b @ '' '' @ format_6f c
                 @ '' '' @ format_6f d @ [CHR 0x0A]"
    unfolding line yb format_line_def by (simp only: prod.case)
  with f yb show "\<exists>nm i xmin ymin xmax ymax a b c d.
        find_elem obj ''name'' = Some nm \<and>
        py_index (map Some classes) (text_of nm) = Inr i \<and>
        int_field (find_elem obj ''bndbox'') ''xmin'' = Inr xmin \<and>
        int_field (find_elem obj ''bndbox'') ''ymin'' = Inr ymin \<and>
        int_field (find_elem obj ''bndbox'') ''xmax'' = Inr xmax \<and>
        int_field (find_elem obj ''bndbox'') ''ymax'' = Inr ymax \<and>
        convert_to_yolo_format img_size (xmin, xmax, ymin, ymax) = Inr (a, b, c, d) \<and>
        line = show_nat i @ '' '' @ format_6f a @ '' '' @ format_6f b @ '' '' @ format_6f c
                 @ '' '' @ format_6f d @ [CHR 0x0A]" by blast
next
  assume "\<exists>nm i xmin ymin xmax ymax a b c d.
        find_elem obj ''name'' = Some nm \<and>
        py_index (map Some classes) (text_of nm) = Inr i \<and>
        int_field (find_elem obj ''bndbox'') ''xmin'' = Inr xmin \<and>
        int_field (find_elem obj ''bndbox'') ''ymin'' = Inr ymin \<and>
        int_field (find_elem obj ''bndbox'') ''xmax'' = Inr xmax \<and>
        int_field (find_elem obj ''bndbox'') ''ymax'' = Inr ymax \<and>
        convert_to_yolo_format img_size (xmin, xmax, ymin, ymax) = Inr (a, b, c, d) \<and>
        line = show_nat i @ '' '' @ format_6f a @ '' '' @ format_6f b @ '' '' @ format_6f c
                 @ '' '' @ format_6f d @ [CHR 0x0A]"
  then obtain nm i xmin ymin xmax ymax a b c d where
    f: "find_elem obj ''name'' = Some nm"
      "py_index (map Some classes) (text_of nm) = Inr i"
      "int_field (find_elem obj ''bndbox'') ''xmin'' = Inr xmin"
      "int_field (find_elem obj ''bndbox'') ''ymin'' = Inr ymin"
      "int_field (find_elem obj ''bndbox'') ''xmax'' = Inr xmax"
      "int_field (find_elem obj ''bndbox'') ''ymax'' = Inr ymax"
      "convert_to_yolo_format img_size (xmin, xmax, ymin, ymax) = Inr (a, b, c, d)" and
    line: "line = show_nat i @ '' '' @ format_6f a @ '' '' @ format_6f b @ '' '' @ format_6f c
                 @ '' '' @ format_6f d @ [CHR 0x0A]" by blast
  have "format_line i (a, b, c, d) = line"
    unfolding line format_line_def by (simp only: prod.case)
  then show "process_object p classes img_size obj = Emit line"
    by (simp add: process_object_def f)
qed

lemma emitted_line_Emit:
  "line \<in> set (emitted_line p cl sz obj) \<longleftrightarrow> process_object p cl sz obj = Emit line"
  by (cases "process_object p cl sz obj") (auto simp add: emitted_line_def)

lemma process_xml_file_lines:
  assumes "process_xml_file prs xml_path classes = (out, Inr lines)"
  shows "lines = [] \<or>
    (\<exists>root_node w h. prs xml_path = Inr root_node \<and>
       int_field (find_elem root_node ''size'') ''width'' = Inr w \<and>
       int_field (find_elem root_node ''size'') ''height'' = Inr h \<and>
       lines = concat (map (emitted_line xml_path classes (w, h)) (findall root_node ''object'')))"
proof (cases "lines = []")
  case True
  then show ?thesis by simp
next
  case False
  with process_xml_file_Inr [OF assms] obtain root_node w h where
    r: "prs xml_path = Inr root_node"
      "int_field (find_elem root_node ''size'') ''width'' = Inr w"
      "int_field (find_elem root_node ''size'') ''height'' = Inr h" and
    po: "process_objects xml_path classes (w, h) (findall root_node ''object'') [] []
      = (out, Inr lines)" by blast
  from po have "snd (process_objects xml_path classes (w, h) (findall root_node ''object'') [] [])
      = Inr lines" by simp
  from process_objects_order [OF this] r show ?thesis by auto
qed

lemma emitted_by_object:
  assumes "process_xml_file prs xml_path classes = (out, Inr lines)" and "line \<in> set lines"
  shows "\<exists>root_node w h obj.
     prs xml_path = Inr root_node \<and>
     int_field (find_elem root_node ''size'') ''width'' = Inr w \<and>
     int_field (find_elem root_node ''size'') ''height'' = Inr h \<and>
     obj \<in> set (findall root_node ''object'') \<and>
     process_object xml_path classes (w, h) obj = Emit line"
proof -
  from process_xml_file_lines [OF assms(1)] assms(2) obtain root_node w h where
    r: "prs xml_path = Inr root_node"
      "int_field (find_elem root_node ''size'') ''width'' = Inr w"
      "int_field (find_elem root_node ''size'') ''height'' = Inr h" and
    l: "lines = concat (map (emitted_line xml_path classes (w, h)) (findall root_node ''object''))"
    by auto
  from assms(2) l obtain obj where "obj \<in> set (findall root_node ''object'')"
    and "line \<in> set (emitted_line xml_path classes (w, h) obj)" by auto
  with r show ?thesis by (auto simp add: emitted_line_Emit)
qed

subsection \<open>A registry with two classes\<close>

lemma nearest_half: "nearest (1 / 2) = 1 / 2"
proof -
  have "nearest (1 / 2) = of_int 4503599627370496 * 2 powi (- 1 - 52)"
    by (rule nearest_eqI) simp_all
  then show ?thesis by simp
qed

lemma nearest_one: "nearest 1 = 1"
  using nearest_of_int [of 1] by simp

lemma convert_car:
  "convert_to_yolo_format (640, 480) (0, 640, 0, 480) =
     Inr (Finite False (1 / 2), Finite False (1 / 2), Finite False 1, Finite False 1)"
proof -
  have "convert_to_yolo_format (640, 480) (0, 640, 0, 480) =
    Inr (Finite (0 + 640 < (0::int)) (nearest (of_int \<bar>0 + 640\<bar> / of_int (2 * 640))),
         Finite (0 + 480 < (0::int)) (nearest (of_int \<bar>0 + 480\<bar> / of_int (2 * 480))),
         Finite (640 - 0 < (0::int)) (nearest (of_int \<bar>640 - 0\<bar> / of_int 640)),
         Finite (480 - 0 < (0::int)) (nearest (of_int \<bar>480 - 0\<bar> / of_int 480)))"
    by (rule convert_small) simp_all
  then show ?thesis by (simp add: nearest_half nearest_one)
qed

lemma scaled_half: "scaled_6f (1 / 2) = 500000"
proof -
  have "round_half_even (1 / 2 * 10 ^ 6) = 500000" by (rule rhe_eqI) simp
  then show ?thesis by (simp add: scaled_6f_def)
qed

lemma scaled_one: "scaled_6f 1 = 1000000"
proof -
  have "round_half_even (1 * 10 ^ 6) = 1000000" by (rule rhe_eqI) simp
  then show ?thesis by (simp add: scaled_6f_def)
qed

lemma replicate_5: "replicate 5 x = [x, x, x, x, x]"
  by (simp add: numeral_eq_Suc)

lemma format_line_car:
  "format_line 0 (Finite False (1 / 2), Finite False (1 / 2), Finite False 1, Finite False 1)
   = ''0 0.500000 0.500000 1.000000 1.000000'' @ [CHR 0x0A]"
  by (simp add: format_line_def scaled_half scaled_one digit_char_def zero_pad_def
      show_nat.simps replicate_5)

lemma format_line_pothole:
  "format_line (Suc 0) (Finite False (15 / 64), Finite False (7505999378950827 / 36028797018963968),
      Finite False (5 / 32), Finite False (7505999378950827 / 36028797018963968))
   = ''1 0.234375 0.208333 0.156250 0.208333'' @ [CHR 0x0A]"
  by (simp add: format_line_def scaled_15_64 scaled_5_32 scaled_5_24 digit_char_def zero_pad_def
      show_nat.simps)

lemma car_object_fields:
  "find_elem car_object ''name'' = Some (Element ''name'' (Some ''car'') [])"
  "int_field (find_elem car_object ''bndbox'') ''xmin'' = Inr 0"
  "int_field (find_elem car_object ''bndbox'') ''ymin'' = Inr 0"
  "int_field (find_elem car_object ''bndbox'') ''xmax'' = Inr 640"
  "int_field (find_elem car_object ''bndbox'') ''ymax'' = Inr 480"
  by (simp_all add: car_object_def find_elem_def int_field_def py_int_eval)

lemma boxless_object_fields:
  "find_elem boxless_object ''name'' = Some (Element ''name'' (Some ''pothole'') [])"
  "find_elem boxless_object ''bndbox'' = None"
  by (simp_all add: boxless_object_def find_elem_def)

lemma two_class_objects:
  "process_object p [''car'', ''pothole''] (640, 480) car_object
     = Emit (''0 0.500000 0.500000 1.000000 1.000000'' @ [CHR 0x0A])"
  "process_object p [''car'', ''pothole''] img_size boxless_object = Skip (MissingBoxMsg p)"
  "process_object p [''car'', ''pothole''] (640, 480) example_object
     = Emit (''1 0.234375 0.208333 0.156250 0.208333'' @ [CHR 0x0A])"
proof -
  show "process_object p [''car'', ''pothole''] (640, 480) car_object
     = Emit (''0 0.500000 0.500000 1.000000 1.000000'' @ [CHR 0x0A])"
    by (simp add: process_object_def car_object_fields convert_car format_line_car)
  show "process_object p [''car'', ''pothole''] img_size boxless_object = Skip (MissingBoxMsg p)"
    by (simp add: process_object_def boxless_object_fields int_field_def box_failure_def)
  show "process_object p [''car'', ''pothole''] (640, 480) example_object
     = Emit (''1 0.234375 0.208333 0.156250 0.208333'' @ [CHR 0x0A])"
    by (simp add: process_object_def example_object_fields convert_example format_line_pothole)
qed

lemma two_class_doc_parts:
  "find_elem two_class_doc ''size'' = Some example_size"
  "findall two_class_doc ''object'' = [car_object, boxless_object, example_object]"
  by (simp_all add: two_class_doc_def find_elem_def findall_def example_size_def car_object_def
      boxless_object_def example_object_def)

lemma two_class_lines:
  "process_xml_file (\<lambda>p. Inr two_class_doc) xml_path [''car'', ''pothole'']
     = ([MissingBoxMsg xml_path],
        Inr [''0 0.500000 0.500000 1.000000 1.000000'' @ [CHR 0x0A],
             ''1 0.234375 0.208333 0.156250 0.208333'' @ [CHR 0x0A]])"
  by (simp add: process_xml_file_def two_class_doc_parts example_size_fields two_class_objects)

text \<open>
  Claim C10. Every label line the parser returns was emitted by an object entry of the file,
  and the class id it carries is the index of that entry's class name in the class registry:
  the text before the first space is the decimal rendering of the index \<open>i\<close> that
  \<open>classes.index\<close> returns for the name of the entry that emitted the line (the first
  position of the name), so \<open>0 \<le> i < len(classes)\<close>.
\<close>

theorem class_id_in_range:
  assumes "process_xml_file prs xml_path classes = (out, Inr lines)" and "line \<in> set lines"
  shows "\<exists>root_node w h obj nm i.
     prs xml_path = Inr root_node \<and>
     int_field (find_elem root_node ''size'') ''width'' = Inr w \<and>
     int_field (find_elem root_node ''size'') ''height'' = Inr h \<and>
     obj \<in> set (findall root_node ''object'') \<and>
     process_object xml_path classes (w, h) obj = Emit line \<and>
     find_elem obj ''name'' = Some nm \<and>
     py_index (map Some classes) (text_of nm) = Inr i \<and>
     i < length classes \<and> text_of nm = Some (classes ! i) \<and>
     (\<forall>j < i. classes ! j \<noteq> classes ! i) \<and>
     takeWhile (\<lambda>c. c \<noteq> CHR '' '') line = show_nat i"
proof -
  from emitted_by_object [OF assms] obtain root_node w h obj where
    r: "prs xml_path = Inr root_node"
      "int_field (find_elem root_node ''size'') ''width'' = Inr w"
      "int_field (find_elem root_node ''size'') ''height'' = Inr h"
      "obj \<in> set (findall root_node ''object'')" and
    e: "process_object xml_path classes (w, h) obj = Emit line" by blast
  from process_object_Emit_iff [THEN iffD1, OF e] obtain nm i a b c d where
    nm: "find_elem obj ''name'' = Some nm" and
    i: "py_index (map Some classes) (text_of nm) = Inr i" and
    line: "line = show_nat i @ '' '' @ format_6f a @ '' '' @ format_6f b @ '' '' @ format_6f c
                 @ '' '' @ format_6f d @ [CHR 0x0A]" by blast
  from py_index_Inr [OF i] have il: "i < length classes"
    and t: "text_of nm = Some (classes ! i)"
    and f: "\<forall>j < i. map Some classes ! j \<noteq> text_of nm" by auto
  have first: "\<forall>j < i. classes ! j \<noteq> classes ! i"
  proof (intro allI impI)
    fix j assume j: "j < i"
    with f il have "Some (classes ! j) \<noteq> text_of nm" by auto
    with t show "classes ! j \<noteq> classes ! i" by simp
  qed
  have "line = format_line i (a, b, c, d)" unfolding line format_line_def by (simp only: prod.case)
  then have "takeWhile (\<lambda>c. c \<noteq> CHR '' '') line = show_nat i"
    by (simp only: format_line_class_id)
  with r e nm i il t first show ?thesis by blast
qed

theorem class_id_in_range_witness:
  "process_xml_file (\<lambda>p. Inr two_class_doc) ''a.xml'' [''car'', ''pothole'']
     = ([MissingBoxMsg ''a.xml''],
        Inr [''0 0.500000 0.500000 1.000000 1.000000'' @ [CHR 0x0A],
             ''1 0.234375 0.208333 0.156250 0.208333'' @ [CHR 0x0A]]) \<and>
   ''1 0.234375 0.208333 0.156250 0.208333'' @ [CHR 0x0A]
     \<in> set [''0 0.500000 0.500000 1.000000 1.000000'' @ [CHR 0x0A],
             ''1 0.234375 0.208333 0.156250 0.208333'' @ [CHR 0x0A]] \<and>
   (\<exists>root_node w h obj nm.
     (\<lambda>p. Inr two_class_doc) ''a.xml'' = Inr root_node \<and>
     int_field (find_elem root_node ''size'') ''width'' = Inr w \<and>
     int_field (find_elem root_node ''size'') ''height'' = Inr h \<and>
     obj \<in> set (findall root_node ''object'') \<and>
     process_object ''a.xml'' [''car'', ''pothole''] (w, h) obj
       = Emit (''1 0.234375 0.208333 0.156250 0.208333'' @ [CHR 0x0A]) \<and>
     find_elem obj ''name'' = Some nm \<and>
     py_index (map Some [''car'', ''pothole'']) (text_of nm) = Inr 1 \<and>
     1 < length [''car'', ''pothole''] \<and> text_of nm = Some ([''car'', ''pothole''] ! 1) \<and>
     (\<forall>j < 1. [''car'', ''pothole''] ! j \<noteq> [''car'', ''pothole''] ! 1) \<and>
     takeWhile (\<lambda>c. c \<noteq> CHR '' '') (''1 0.234375 0.208333 0.156250 0.208333'' @ [CHR 0x0A])
       = show_nat 1)"
proof -
  let ?L = "''1 0.234375 0.208333 0.156250 0.208333'' @ [CHR 0x0A]"
  have e: "process_xml_file (\<lambda>p. Inr two_class_doc) ''a.xml'' [''car'', ''pothole'']
     = ([MissingBoxMsg ''a.xml''],
        Inr [''0 0.500000 0.500000 1.000000 1.000000'' @ [CHR 0x0A], ?L])"
    by (rule two_class_lines)
  have m: "?L \<in> set [''0 0.500000 0.500000 1.000000 1.000000'' @ [CHR 0x0A], ?L]" by simp
  from class_id_in_range [OF e m] obtain root_node w h obj nm i where
    c: "(\<lambda>p. Inr two_class_doc) ''a.xml'' = Inr root_node"
      "int_field (find_elem root_node ''size'') ''width'' = Inr w"
      "int_field (find_elem root_node ''size'') ''height'' = Inr h"
      "obj \<in> set (findall root_node ''object'')"
      "process_object ''a.xml'' [''car'', ''pothole''] (w, h) obj = Emit ?L"
      "find_elem obj ''name'' = Some nm"
      "py_index (map Some [''car'', ''pothole'']) (text_of nm) = Inr i"
      "i < length [''car'', ''pothole'']" "text_of nm = Some ([''car'', ''pothole''] ! i)"
      "\<forall>j < i. [''car'', ''pothole''] ! j \<noteq> [''car'', ''pothole''] ! i"
      "takeWhile (\<lambda>c. c \<noteq> CHR '' '') ?L = show_nat i" by blast
  have tw: "takeWhile (\<lambda>c. c \<noteq> CHR '' '') ?L = ''1''" by simp
  have s0: "show_nat 0 = ''0''" by (simp add: show_nat.simps digit_char_def)
  from c(8) have "i = 0 \<or> i = 1" by auto
  with c(11) tw s0 have "i = 1" by auto
  with c show ?thesis using e m by blast
qed

text \<open>
  Claim C4. The lines the parser returns are the lines its object entries emit, in document
  order. An object entry emits a line exactly when it has a name that the registry holds,
  four integer coordinates, and the coordinate converter returns for them; the line is then
  the index of the name in the registry followed by the four values the converter returned
  for the entry's own coordinates and the image size of the file, each rendered with exactly
  six digits after the decimal point, separated by single spaces and ended by a newline. For
  the example (640 by 480, box 100, 200, 50, 150, class id 0) the line is
  \<open>0 0.234375 0.208333 0.156250 0.208333\<close> followed by a newline.
\<close>

theorem label_line_format:
  "(\<forall>prs xml_path classes out lines.
      process_xml_file prs xml_path classes = (out, Inr lines) \<longrightarrow>
      (\<forall>line \<in> set lines. is_label_line line) \<and>
      (lines = [] \<or>
       (\<exists>root_node w h. prs xml_path = Inr root_node \<and>
          int_field (find_elem root_node ''size'') ''width'' = Inr w \<and>
          int_field (find_elem root_node ''size'') ''height'' = Inr h \<and>
          lines = concat (map (emitted_line xml_path classes (w, h))
                    (findall root_node ''object''))))) \<and>
   (\<forall>xml_path classes img_size obj line.
      (emitted_line xml_path classes img_size obj = [line] \<longleftrightarrow>
         process_object xml_path classes img_size obj = Emit line) \<and>
      (process_object xml_path classes img_size obj = Emit line \<longleftrightarrow>
      (\<exists>nm class_id xmin ymin xmax ymax a b c d.
         find_elem obj ''name'' = Some nm \<and>
         py_index (map Some classes) (text_of nm) = Inr class_id \<and>
         int_field (find_elem obj ''bndbox'') ''xmin'' = Inr xmin \<and>
         int_field (find_elem obj ''bndbox'') ''ymin'' = Inr ymin \<and>
         int_field (find_elem obj ''bndbox'') ''xmax'' = Inr xmax \<and>
         int_field (find_elem obj ''bndbox'') ''ymax'' = Inr ymax \<and>
         convert_to_yolo_format img_size (xmin, xmax, ymin, ymax) = Inr (a, b, c, d) \<and>
         line = show_nat class_id @ '' '' @ format_6f a @ '' '' @ format_6f b @ '' ''
                  @ format_6f c @ '' '' @ format_6f d @ [CHR 0x0A]))) \<and>
   (\<exists>box. convert_to_yolo_format (640, 480) (100, 200, 50, 150) = Inr box \<and>
      format_line 0 box = ''0 0.234375 0.208333 0.156250 0.208333'' @ [CHR 0x0A]) \<and>
   process_xml_file (\<lambda>p. Inr example_doc) ''a.xml'' CLASS_NAMES
     = ([], Inr [''0 0.234375 0.208333 0.156250 0.208333'' @ [CHR 0x0A]])"
proof (intro conjI allI impI ballI)
  fix prs xml_path classes out lines
  assume a: "process_xml_file prs xml_path classes = (out, Inr lines)"
  show "lines = [] \<or>
       (\<exists>root_node w h. prs xml_path = Inr root_node \<and>
          int_field (find_elem root_node ''size'') ''width'' = Inr w \<and>
          int_field (find_elem root_node ''size'') ''height'' = Inr h \<and>
          lines = concat (map (emitted_line xml_path classes (w, h))
                    (findall root_node ''object'')))"
    using a by (rule process_xml_file_lines)
  fix line assume b: "line \<in> set lines"
  from emitted_by_object [OF a b] obtain w h obj where
    "process_object xml_path classes (w, h) obj = Emit line" by blast
  from process_object_Emit [OF this] obtain i sa a sb b sc c sd d where
    "line = format_line i (Finite sa a, Finite sb b, Finite sc c, Finite sd d)" by blast
  then show "is_label_line line" by (simp only: format_line_shape)
next
  fix xml_path classes img_size obj line
  show "emitted_line xml_path classes img_size obj = [line] \<longleftrightarrow>
         process_object xml_path classes img_size obj = Emit line"
    by (cases "process_object xml_path classes img_size obj") (simp_all add: emitted_line_def)
  show "process_object xml_path classes img_size obj = Emit line \<longleftrightarrow>
      (\<exists>nm class_id xmin ymin xmax ymax a b c d.
         find_elem obj ''name'' = Some nm \<and>
         py_index (map Some classes) (text_of nm) = Inr class_id \<and>
         int_field (find_elem obj ''bndbox'') ''xmin'' = Inr xmin \<and>
         int_field (find_elem obj ''bndbox'') ''ymin'' = Inr ymin \<and>
         int_field (find_elem obj ''bndbox'') ''xmax'' = Inr xmax \<and>
         int_field (find_elem obj ''bndbox'') ''ymax'' = Inr ymax \<and>
         convert_to_yolo_format img_size (xmin, xmax, ymin, ymax) = Inr (a, b, c, d) \<and>
         line = show_nat class_id @ '' '' @ format_6f a @ '' '' @ format_6f b @ '' ''
                  @ format_6f c @ '' '' @ format_6f d @ [CHR 0x0A])"
    by (rule process_object_Emit_iff)
next
  show "\<exists>box. convert_to_yolo_format (640, 480) (100, 200, 50, 150) = Inr box \<and>
      format_line 0 box = ''0 0.234375 0.208333 0.156250 0.208333'' @ [CHR 0x0A]"
    using convert_example format_line_example by blast
next
  show "process_xml_file (\<lambda>p. Inr example_doc) ''a.xml'' CLASS_NAMES
     = ([], Inr [''0 0.234375 0.208333 0.156250 0.208333'' @ [CHR 0x0A]])"
    by (rule example_lines)
qed

theorem label_line_format_witness:
  "process_xml_file (\<lambda>p. Inr two_class_doc) ''a.xml'' [''car'', ''pothole'']
     = ([MissingBoxMsg ''a.xml''],
        Inr [''0 0.500000 0.500000 1.000000 1.000000'' @ [CHR 0x0A],
             ''1 0.234375 0.208333 0.156250 0.208333'' @ [CHR 0x0A]]) \<and>
   is_label_line (''0 0.500000 0.500000 1.000000 1.000000'' @ [CHR 0x0A]) \<and>
   is_label_line (''1 0.234375 0.208333 0.156250 0.208333'' @ [CHR 0x0A]) \<and>
   find_elem car_object ''name'' = Some (Element ''name'' (Some ''car'') []) \<and>
   py_index (map Some [''car'', ''pothole'']) (text_of (Element ''name'' (Some ''car'') [])) = Inr 0 \<and>
   int_field (find_elem car_object ''bndbox'') ''xmin'' = Inr 0 \<and>
   int_field (find_elem car_object ''bndbox'') ''ymin'' = Inr 0 \<and>
   int_field (find_elem car_object ''bndbox'') ''xmax'' = Inr 640 \<and>
   int_field (find_elem car_object ''bndbox'') ''ymax'' = Inr 480 \<and>
   convert_to_yolo_format (640, 480) (0, 640, 0, 480)
     = Inr (Finite False (1 / 2), Finite False (1 / 2), Finite False 1, Finite False 1) \<and>
   ''0 0.500000 0.500000 1.000000 1.000000'' @ [CHR 0x0A]
     = show_nat 0 @ '' '' @ format_6f (Finite False (1 / 2)) @ '' ''
         @ format_6f (Finite False (1 / 2)) @ '' '' @ format_6f (Finite False 1) @ '' ''
         @ format_6f (Finite False 1) @ [CHR 0x0A] \<and>
   process_object ''a.xml'' [''car'', ''pothole''] (640, 480) car_object
     = Emit (''0 0.500000 0.500000 1.000000 1.000000'' @ [CHR 0x0A]) \<and>
   emitted_line ''a.xml'' [''car'', ''pothole''] (640, 480) car_object
     = [''0 0.500000 0.500000 1.000000 1.000000'' @ [CHR 0x0A]]"
proof -
  let ?C = "''0 0.500000 0.500000 1.000000 1.000000'' @ [CHR 0x0A]"
  let ?P = "''1 0.234375 0.208333 0.156250 0.208333'' @ [CHR 0x0A]"
  note T = label_line_format
  have e: "process_xml_file (\<lambda>p. Inr two_class_doc) ''a.xml'' [''car'', ''pothole'']
     = ([MissingBoxMsg ''a.xml''], Inr [?C, ?P])"
    by (rule two_class_lines)
  from T [THEN conjunct1, THEN spec, THEN spec, THEN spec, THEN spec, THEN spec, THEN mp, OF e]
  have "\<forall>line \<in> set [?C, ?P]. is_label_line line" by (rule conjunct1)
  then have 1: "is_label_line ?C" "is_label_line ?P" by simp_all
  have i: "py_index (map Some [''car'', ''pothole'']) (text_of (Element ''name'' (Some ''car'') []))
      = Inr 0" by simp
  have l: "?C = show_nat 0 @ '' '' @ format_6f (Finite False (1 / 2)) @ '' ''
         @ format_6f (Finite False (1 / 2)) @ '' '' @ format_6f (Finite False 1) @ '' ''
         @ format_6f (Finite False 1) @ [CHR 0x0A]"
    using format_line_car by (simp add: format_line_def)
  note U = T [THEN conjunct2, THEN conjunct1, THEN spec, THEN spec, THEN spec, THEN spec,
      THEN spec, of "''a.xml''" "[''car'', ''pothole'']" "(640, 480)" car_object ?C]
  from U [THEN conjunct2, THEN iffD2] car_object_fields i convert_car l
  have 2: "process_object ''a.xml'' [''car'', ''pothole''] (640, 480) car_object = Emit ?C"
    by blast
  from U [THEN conjunct1, THEN iffD2, OF 2]
  have 3: "emitted_line ''a.xml'' [''car'', ''pothole''] (640, 480) car_object = [?C]" .
  from e 1 car_object_fields i convert_car l 2 3 show ?thesis by blast
qed







subsection \<open>What the parser tolerates\<close>


































section \<open>The pipeline\<close>

subsection \<open>One file\<close>





subsection \<open>The files of a subset\<close>





subsection \<open>The subsets\<close>


subsection \<open>The output directories\<close>








subsection \<open>main\<close>

























section \<open>The coordinate converter\<close>

lemma nearest_float_quotient:
  assumes "\<bar>n\<bar> \<le> 2 ^ 53" and "0 < d" and "d \<le> 2 ^ 53"
  shows "nearest_float (of_int n / of_int d) = Finite (n < 0) (nearest (of_int \<bar>n\<bar> / of_int d))"
    and "\<exists>v. float_value (nearest_float (of_int n / of_int d)) = Some v \<and>
      \<bar>v - of_int n / of_int d\<bar> \<le> \<bar>of_int n / of_int d\<bar> / 2 ^ 53"
proof -
  define q :: rat where "q = of_int n / of_int d"
  have dp: "(0::rat) < of_int d" using assms(2) by simp
  have neg: "q < 0 \<longleftrightarrow> n < 0" using dp by (simp add: q_def divide_less_0_iff)
  have ab: "\<bar>q\<bar> = of_int \<bar>n\<bar> / of_int d" using dp by (simp add: q_def)
  have fin: "fl_round (n < 0) (of_int \<bar>n\<bar> / of_int d)
      = Finite (n < 0) (nearest (of_int \<bar>n\<bar> / of_int d))"
    using assms by (intro quotient_finite) simp_all
  show eq: "nearest_float (of_int n / of_int d)
      = Finite (n < 0) (nearest (of_int \<bar>n\<bar> / of_int d))"
    unfolding q_def [symmetric] nearest_float_def neg ab by (rule fin)
  have err: "\<bar>nearest \<bar>q\<bar> - \<bar>q\<bar>\<bar> \<le> \<bar>q\<bar> / 2 ^ 53"
  proof (cases "n = 0")
    case True
    then show ?thesis by (simp add: q_def nearest_0)
  next
    case False
    then have "(1::rat) \<le> of_int \<bar>n\<bar>" by simp
    moreover have "(of_int d :: rat) \<le> 2 ^ 53" using assms(3) by (rule of_int_le_pow2)
    ultimately have "1 / 2 ^ 53 \<le> (of_int \<bar>n\<bar> :: rat) / of_int d"
      using dp by (intro frac_le) simp_all
    then have "2 powi (- 53) \<le> \<bar>q\<bar>" by (simp add: ab power_int_minus_divide)
    moreover have "(2::rat) powi (- 1022) \<le> 2 powi (- 53)" by (simp only: pw2_le_iff)
    ultimately have "2 powi (- 1022) \<le> \<bar>q\<bar>" by linarith
    then show ?thesis by (rule nearest_rel_err)
  qed
  have "\<bar>(if n < 0 then - nearest \<bar>q\<bar> else nearest \<bar>q\<bar>) - q\<bar> = \<bar>nearest \<bar>q\<bar> - \<bar>q\<bar>\<bar>"
    using neg by (auto simp add: abs_if)
  with err have "\<bar>(if n < 0 then - nearest \<bar>q\<bar> else nearest \<bar>q\<bar>) - q\<bar> \<le> \<bar>q\<bar> / 2 ^ 53" by simp
  moreover have "float_value (nearest_float q)
      = Some (if n < 0 then - nearest \<bar>q\<bar> else nearest \<bar>q\<bar>)"
    using eq by (simp add: q_def [symmetric] ab)
  ultimately show "\<exists>v. float_value (nearest_float (of_int n / of_int d)) = Some v \<and>
      \<bar>v - of_int n / of_int d\<bar> \<le> \<bar>of_int n / of_int d\<bar> / 2 ^ 53"
    unfolding q_def [symmetric] by blast
qed

text \<open>
  Claim C1, as amended. For every image size with \<open>0 < W \<le> 2^52\<close> and \<open>0 < H \<le> 2^52\<close> and
  every box whose coordinates have magnitude at most \<open>2^52\<close>, the converter returns the four
  values \<open>(xmin+xmax)/(2W)\<close>, \<open>(ymin+ymax)/(2H)\<close>, \<open>(xmax-xmin)/W\<close> and \<open>(ymax-ymin)/H\<close>, each
  rounded to the nearest binary64 number (so within a relative error of \<open>2^-53\<close>), whatever
  their range: nothing is clamped.
\<close>

theorem convert_rounded_quotients:
  assumes "0 < w" and "w \<le> 2 ^ 52" and "0 < h" and "h \<le> 2 ^ 52"
    and "\<bar>xmin\<bar> \<le> 2 ^ 52" and "\<bar>xmax\<bar> \<le> 2 ^ 52" and "\<bar>ymin\<bar> \<le> 2 ^ 52" and "\<bar>ymax\<bar> \<le> 2 ^ 52"
  shows "convert_to_yolo_format (w, h) (xmin, xmax, ymin, ymax) =
      Inr (nearest_float (of_int (xmin + xmax) / of_int (2 * w)),
           nearest_float (of_int (ymin + ymax) / of_int (2 * h)),
           nearest_float (of_int (xmax - xmin) / of_int w),
           nearest_float (of_int (ymax - ymin) / of_int h)) \<and>
    (\<forall>q \<in> {of_int (xmin + xmax) / of_int (2 * w), of_int (ymin + ymax) / of_int (2 * h),
             of_int (xmax - xmin) / of_int w, of_int (ymax - ymin) / of_int h}.
       \<exists>v. float_value (nearest_float q) = Some v \<and> \<bar>v - q\<bar> \<le> \<bar>q\<bar> / 2 ^ 53)"
proof -
  have sx: "\<bar>xmin + xmax\<bar> \<le> 2 ^ 53" and sy: "\<bar>ymin + ymax\<bar> \<le> 2 ^ 53"
    and dx: "\<bar>xmax - xmin\<bar> \<le> 2 ^ 53" and dy: "\<bar>ymax - ymin\<bar> \<le> 2 ^ 53"
    using assms(5-8) by simp_all
  have w2: "0 < 2 * w" "2 * w \<le> 2 ^ 53" and h2: "0 < 2 * h" "2 * h \<le> 2 ^ 53"
    and w1: "w \<le> 2 ^ 53" and h1: "h \<le> 2 ^ 53"
    using assms(1-4) by simp_all
  have "convert_to_yolo_format (w, h) (xmin, xmax, ymin, ymax) =
      Inr (nearest_float (of_int (xmin + xmax) / of_int (2 * w)),
           nearest_float (of_int (ymin + ymax) / of_int (2 * h)),
           nearest_float (of_int (xmax - xmin) / of_int w),
           nearest_float (of_int (ymax - ymin) / of_int h))"
    by (simp only: convert_small [OF assms(1-4) sx sy dx dy]
        nearest_float_quotient(1) [OF sx w2] nearest_float_quotient(1) [OF sy h2]
        nearest_float_quotient(1) [OF dx assms(1) w1] nearest_float_quotient(1) [OF dy assms(3) h1])
  moreover note nearest_float_quotient(2) [OF sx w2] nearest_float_quotient(2) [OF sy h2]
    nearest_float_quotient(2) [OF dx assms(1) w1] nearest_float_quotient(2) [OF dy assms(3) h1]
  ultimately show ?thesis by blast
qed

theorem convert_rounded_quotients_witness:
  "(0::int) < 640 \<and> (640::int) \<le> 2 ^ 52 \<and> (0::int) < 480 \<and> (480::int) \<le> 2 ^ 52 \<and>
   \<bar>600::int\<bar> \<le> 2 ^ 52 \<and> \<bar>700::int\<bar> \<le> 2 ^ 52 \<and> \<bar>- 50::int\<bar> \<le> 2 ^ 52 \<and> \<bar>50::int\<bar> \<le> 2 ^ 52 \<and>
   convert_to_yolo_format (640, 480) (600, 700, - 50, 50) =
      Inr (nearest_float (of_int (600 + 700) / of_int (2 * 640)),
           nearest_float (of_int (- 50 + 50) / of_int (2 * 480)),
           nearest_float (of_int (700 - 600) / of_int 640),
           nearest_float (of_int (50 - (- 50)) / of_int 480)) \<and>
   nearest_float (of_int (600 + 700) / of_int (2 * 640)) = Finite False (65 / 64)"
proof -
  have a: "(0::int) < 640" "(640::int) \<le> 2 ^ 52" "(0::int) < 480" "(480::int) \<le> 2 ^ 52"
    "\<bar>600::int\<bar> \<le> 2 ^ 52" "\<bar>700::int\<bar> \<le> 2 ^ 52" "\<bar>- 50::int\<bar> \<le> 2 ^ 52" "\<bar>50::int\<bar> \<le> 2 ^ 52"
    by simp_all
  have "nearest (65 / 64) = of_int 4573968371548160 * 2 powi (0 - 52)"
    by (rule nearest_eqI) simp_all
  then have n: "nearest (65 / 64) = 65 / 64" by simp
  have "nearest_float (of_int 1300 / of_int 1280)
      = Finite (1300 < (0::int)) (nearest (of_int \<bar>1300\<bar> / of_int 1280))"
    by (rule nearest_float_quotient) simp_all
  then have v: "nearest_float (of_int (600 + 700) / of_int (2 * 640)) = Finite False (65 / 64)"
    by (simp add: n)
  from convert_rounded_quotients [OF a, THEN conjunct1] a v show ?thesis by blast
qed

text \<open>
  Claim C1 as the specification states it, for every image size, fails for an image width
  of \<open>2^1023\<close>: the product \<open>2.0 * W\<close> overflows to infinity, and the quotient returned for
  \<open>x_center\<close> is 0, where \<open>(xmin+xmax)/(2W)\<close> is one half.
\<close>

theorem convert_overflow_counterexample:
  "convert_to_yolo_format (2 ^ 1023, 1) (0, 2 ^ 1023, 0, 0)
     = Inr (Finite False 0, Finite False 0, Finite False 1, Finite False 0) \<and>
   (of_int (0 + 2 ^ 1023) / of_int (2 * 2 ^ 1023) :: rat) = 1 / 2"
proof -
  have "nearest (2 ^ 1023) = of_int 4503599627370496 * 2 powi (1023 - 52)"
    by (rule nearest_eqI) simp_all
  then have n: "nearest (2 ^ 1023) = 2 ^ 1023" by simp
  have "nearest (2 ^ 1024) = of_int 4503599627370496 * 2 powi (1024 - 52)"
    by (rule nearest_eqI) simp_all
  then have m: "nearest (2 ^ 1024) = 2 ^ 1024" by simp
  have f: "float_of_int (2 ^ 1023) = Inr (Finite False (2 ^ 1023))"
    using n by (simp add: float_of_int_def fl_round_def)
  have "fl_round False (2 * 2 ^ 1023) = Infinity False"
    using m by (simp add: fl_round_def)
  then have dw: "py_mul_float_int (Finite False 2) (2 ^ 1023) = Inr (Infinity False)"
    using f by (simp add: py_mul_float_int_def)
  have xc: "py_truediv_int_float (0 + 2 ^ 1023) (Infinity False) = Inr (Finite False 0)"
    using f by (simp add: py_truediv_int_float_def)
  have dh: "py_mul_float_int (Finite False 2) 1 = Inr (Finite False 2)"
    using mul_two_exact [of 1] by simp
  have yc: "py_truediv_int_float (0 + 0) (Finite False 2) = Inr (Finite False 0)"
    using center_exact [of 0 1] by (simp add: nearest_0)
  have n1: "nearest 1 = 1" using nearest_of_int [of 1] by simp
  have wd: "py_truediv_int_int (2 ^ 1023 - 0) (2 ^ 1023) = Inr (Finite False 1)"
    using n1 by (simp add: py_truediv_int_int_def fl_round_def)
  have ht: "py_truediv_int_int (0 - 0) 1 = Inr (Finite False 0)"
    by (simp add: py_truediv_int_int_def fl_round_def nearest_0)
  have "convert_to_yolo_format (2 ^ 1023, 1) (0, 2 ^ 1023, 0, 0)
     = Inr (Finite False 0, Finite False 0, Finite False 1, Finite False 0)"
    unfolding convert_to_yolo_format_def
    by (simp only: prod.case dw xc dh yc wd ht sum.case)
  then show ?thesis by simp
qed

lemma nearest_err_unit:
  assumes "0 \<le> q" and "q \<le> 1"
  shows "\<bar>nearest q - q\<bar> \<le> 1 / 2 ^ 53"
proof (cases "q = 0")
  case True
  then show ?thesis by (simp add: nearest_0)
next
  case False
  with assms(1) have q: "0 < q" by simp
  have "q \<le> 2 powi 0" using assms(2) by simp
  with q have "ilog2 q \<le> 0" by (rule ilog2_le)
  then have "max (ilog2 q) (- 1022) - 52 \<le> - 52" by simp
  then have "ulp q \<le> 2 powi (- 52)" unfolding ulp_def by (simp only: pw2_le_iff)
  then have "ulp q / 2 \<le> 1 / 2 ^ 53" by (simp add: power_int_minus_divide)
  with nearest_err [of q] show ?thesis by linarith
qed

lemma nearest_unit:
  assumes "0 \<le> q" and "q \<le> 1"
  shows "0 \<le> nearest q" and "nearest q \<le> 1"
proof -
  show "0 \<le> nearest q" using assms(1) by (rule nearest_nonneg)
  have "q \<le> 2 powi 0" using assms(2) by simp
  with assms(1) have "nearest q \<le> 2 powi 0" by (rule nearest_le_pw2_0) simp
  then show "nearest q \<le> 1" by simp
qed

lemma printed_close:
  assumes "0 \<le> r"
  shows "\<bar>of_nat (scaled_6f r) / 10 ^ 6 - r\<bar> \<le> 1 / (2 * 10 ^ 6)"
proof -
  define z where "z = round_half_even (r * 10 ^ 6)"
  have "of_int 0 \<le> r * 10 ^ 6" using assms by simp
  then have z0: "0 \<le> z" unfolding z_def by (rule rhe_ge)
  then have s: "(of_nat (scaled_6f r) :: rat) = of_int z" by (simp add: scaled_6f_def z_def)
  have h: "\<bar>of_int z - r * 10 ^ 6\<bar> \<le> 1 / 2" unfolding z_def by (rule rhe_err)
  have "of_int z / 10 ^ 6 - r = (of_int z - r * 10 ^ 6) / 10 ^ 6"
    by (simp add: diff_divide_distrib)
  then have "\<bar>of_int z / 10 ^ 6 - r\<bar> = \<bar>of_int z - r * 10 ^ 6\<bar> / 10 ^ 6"
    by (simp only: abs_divide) simp
  also have "\<dots> \<le> (1 / 2) / 10 ^ 6" using h by (intro divide_right_mono) simp_all
  finally show ?thesis by (simp add: s)
qed

lemma value_close:
  assumes "0 \<le> q" and "q \<le> 1"
  shows "\<bar>of_nat (scaled_6f (nearest q)) / 10 ^ 6 - q\<bar> \<le> 1 / (2 * 10 ^ 6) + 1 / 2 ^ 53"
  using printed_close [OF nearest_unit(1) [OF assms]] nearest_err_unit [OF assms] by linarith

lemma expand_box:
  fixes px pw a b w d :: rat
  assumes "0 < w" and "\<bar>px - (a + b) / (2 * w)\<bar> \<le> d" and "\<bar>pw - (b - a) / w\<bar> \<le> d"
  shows "\<bar>(px - pw / 2) * w - a\<bar> \<le> 3 / 2 * d * w" and "\<bar>(px + pw / 2) * w - b\<bar> \<le> 3 / 2 * d * w"
proof -
  define ex where "ex = px - (a + b) / (2 * w)"
  define ew where "ew = pw - (b - a) / w"
  have w0: "w \<noteq> 0" using assms(1) by simp
  have 1: "(px - pw / 2) * w - a = (ex - ew / 2) * w"
    using w0 by (simp add: ex_def ew_def field_simps)
  have 2: "(px + pw / 2) * w - b = (ex + ew / 2) * w"
    using w0 by (simp add: ex_def ew_def field_simps)
  have e: "\<bar>ex\<bar> \<le> d" "\<bar>ew\<bar> \<le> d" using assms(2,3) by (simp_all add: ex_def ew_def)
  then have "\<bar>ex - ew / 2\<bar> \<le> 3 / 2 * d" "\<bar>ex + ew / 2\<bar> \<le> 3 / 2 * d" by linarith+
  then have "\<bar>ex - ew / 2\<bar> * w \<le> 3 / 2 * d * w" "\<bar>ex + ew / 2\<bar> * w \<le> 3 / 2 * d * w"
    using assms(1) by (simp_all add: mult_right_mono)
  then show "\<bar>(px - pw / 2) * w - a\<bar> \<le> 3 / 2 * d * w" "\<bar>(px + pw / 2) * w - b\<bar> \<le> 3 / 2 * d * w"
    using assms(1) unfolding 1 2 by (simp_all add: abs_mult)
qed

lemma axis_roundtrip:
  fixes lo hi w :: int
  assumes "0 < w" and "0 \<le> lo" and "lo \<le> hi" and "hi \<le> w"
  defines "c \<equiv> nearest (of_int \<bar>lo + hi\<bar> / of_int (2 * w))"
    and "e \<equiv> nearest (of_int \<bar>hi - lo\<bar> / of_int w)"
  shows "0 \<le> c \<and> c \<le> 1 \<and> 0 \<le> e \<and> e \<le> 1 \<and>
    \<bar>(of_nat (scaled_6f c) / 10 ^ 6 - of_nat (scaled_6f e) / 10 ^ 6 / 2) * of_int w - of_int lo\<bar>
      \<le> (of_int w :: rat) / 10 ^ 6 \<and>
    \<bar>(of_nat (scaled_6f c) / 10 ^ 6 + of_nat (scaled_6f e) / 10 ^ 6 / 2) * of_int w - of_int hi\<bar>
      \<le> (of_int w :: rat) / 10 ^ 6"
proof -
  define qc :: rat where "qc = (of_int lo + of_int hi) / (2 * of_int w)"
  define qe :: rat where "qe = (of_int hi - of_int lo) / of_int w"
  define d :: rat where "d = 1 / (2 * 10 ^ 6) + 1 / 2 ^ 53"
  have wp: "(0::rat) < of_int w" using assms(1) by simp
  have c: "c = nearest qc" using assms(2,3) by (simp add: c_def qc_def)
  have e: "e = nearest qe" using assms(3) by (simp add: e_def qe_def)
  have "lo + hi \<le> 2 * w" using assms(3,4) by linarith
  then have "(of_int (lo + hi) :: rat) \<le> of_int (2 * w)" by (simp only: of_int_le_iff)
  then have "(of_int lo + of_int hi :: rat) \<le> 2 * of_int w" by simp
  then have qc: "0 \<le> qc" "qc \<le> 1" using wp assms(2,3) by (simp_all add: qc_def)
  have "hi - lo \<le> w" using assms(2,4) by linarith
  then have "(of_int (hi - lo) :: rat) \<le> of_int w" by (simp only: of_int_le_iff)
  then have "(of_int hi - of_int lo :: rat) \<le> of_int w" by simp
  then have qe: "0 \<le> qe" "qe \<le> 1" using wp assms(3) by (simp_all add: qe_def)
  have b: "0 \<le> c" "c \<le> 1" "0 \<le> e" "e \<le> 1"
    unfolding c e using nearest_unit [OF qc] nearest_unit [OF qe] by simp_all
  have vc: "\<bar>of_nat (scaled_6f c) / 10 ^ 6 - (of_int lo + of_int hi) / (2 * of_int w)\<bar> \<le> d"
    using value_close [OF qc] by (simp add: c d_def qc_def)
  have ve: "\<bar>of_nat (scaled_6f e) / 10 ^ 6 - (of_int hi - of_int lo) / of_int w\<bar> \<le> d"
    using value_close [OF qe] by (simp add: e d_def qe_def)
  have "3 / 2 * d \<le> 1 / 10 ^ 6" by (simp add: d_def)
  then have "3 / 2 * d * of_int w \<le> 1 / 10 ^ 6 * of_int w"
    using wp by (intro mult_right_mono) simp_all
  then have dw: "3 / 2 * d * of_int w \<le> of_int w / 10 ^ 6" by simp
  from expand_box [OF wp vc ve] dw b show ?thesis by linarith
qed

text \<open>
  Claim C9, as amended. For every image size with \<open>0 < W \<le> 2^52\<close> and \<open>0 < H \<le> 2^52\<close> and
  every box with \<open>0 \<le> xmin \<le> xmax \<le> W\<close> and \<open>0 \<le> ymin \<le> ymax \<le> H\<close>, the converter returns
  four values in \<open>[0, 1]\<close>, and re-expanding the values that the six-decimal format prints,
  \<open>(x_center - width/2) * W\<close> and \<open>(x_center + width/2) * W\<close>, recovers \<open>xmin\<close> and \<open>xmax\<close> up
  to \<open>W / 10^6\<close>, and symmetrically \<open>ymin\<close> and \<open>ymax\<close> up to \<open>H / 10^6\<close>.
\<close>

theorem convert_roundtrip:
  assumes "0 < w" and "w \<le> 2 ^ 52" and "0 < h" and "h \<le> 2 ^ 52"
    and "0 \<le> xmin" and "xmin \<le> xmax" and "xmax \<le> w"
    and "0 \<le> ymin" and "ymin \<le> ymax" and "ymax \<le> h"
  shows "\<exists>xc yc wd ht px py pw ph.
     convert_to_yolo_format (w, h) (xmin, xmax, ymin, ymax)
       = Inr (Finite False xc, Finite False yc, Finite False wd, Finite False ht) \<and>
     0 \<le> xc \<and> xc \<le> 1 \<and> 0 \<le> yc \<and> yc \<le> 1 \<and> 0 \<le> wd \<and> wd \<le> 1 \<and> 0 \<le> ht \<and> ht \<le> 1 \<and>
     printed_value (Finite False xc) = Some px \<and> printed_value (Finite False yc) = Some py \<and>
     printed_value (Finite False wd) = Some pw \<and> printed_value (Finite False ht) = Some ph \<and>
     \<bar>(px - pw / 2) * of_int w - of_int xmin\<bar> \<le> of_int w / 10 ^ 6 \<and>
     \<bar>(px + pw / 2) * of_int w - of_int xmax\<bar> \<le> of_int w / 10 ^ 6 \<and>
     \<bar>(py - ph / 2) * of_int h - of_int ymin\<bar> \<le> of_int h / 10 ^ 6 \<and>
     \<bar>(py + ph / 2) * of_int h - of_int ymax\<bar> \<le> of_int h / 10 ^ 6"
proof -
  define xc where "xc = nearest (of_int \<bar>xmin + xmax\<bar> / of_int (2 * w))"
  define yc where "yc = nearest (of_int \<bar>ymin + ymax\<bar> / of_int (2 * h))"
  define wd where "wd = nearest (of_int \<bar>xmax - xmin\<bar> / of_int w)"
  define ht where "ht = nearest (of_int \<bar>ymax - ymin\<bar> / of_int h)"
  have sx: "\<bar>xmin + xmax\<bar> \<le> 2 ^ 53" and dx: "\<bar>xmax - xmin\<bar> \<le> 2 ^ 53"
    using assms(2,5,6,7) by simp_all
  have sy: "\<bar>ymin + ymax\<bar> \<le> 2 ^ 53" and dy: "\<bar>ymax - ymin\<bar> \<le> 2 ^ 53"
    using assms(4,8,9,10) by simp_all
  have sg: "\<not> xmin + xmax < 0" "\<not> ymin + ymax < 0" "\<not> xmax - xmin < 0" "\<not> ymax - ymin < 0"
    using assms(5,6,8,9) by simp_all
  have cv: "convert_to_yolo_format (w, h) (xmin, xmax, ymin, ymax)
       = Inr (Finite False xc, Finite False yc, Finite False wd, Finite False ht)"
    using convert_small [OF assms(1-4) sx sy dx dy] sg
    by (simp only: xc_def yc_def wd_def ht_def)
  note X = axis_roundtrip [OF assms(1,5,6,7), folded xc_def wd_def]
  note Y = axis_roundtrip [OF assms(3,8,9,10), folded yc_def ht_def]
  have p: "printed_value (Finite False r) = Some (of_nat (scaled_6f r) / 10 ^ 6)" for r
    by simp
  from cv X Y p [of xc] p [of yc] p [of wd] p [of ht] show ?thesis by blast
qed

theorem convert_roundtrip_witness:
  "(0::int) < 640 \<and> (640::int) \<le> 2 ^ 52 \<and> (0::int) < 480 \<and> (480::int) \<le> 2 ^ 52 \<and>
   (0::int) \<le> 100 \<and> (100::int) \<le> 200 \<and> (200::int) \<le> 640 \<and>
   (0::int) \<le> 50 \<and> (50::int) \<le> 150 \<and> (150::int) \<le> 480 \<and>
   (\<exists>xc yc wd ht px py pw ph.
     convert_to_yolo_format (640, 480) (100, 200, 50, 150)
       = Inr (Finite False xc, Finite False yc, Finite False wd, Finite False ht) \<and>
     0 \<le> xc \<and> xc \<le> 1 \<and> 0 \<le> yc \<and> yc \<le> 1 \<and> 0 \<le> wd \<and> wd \<le> 1 \<and> 0 \<le> ht \<and> ht \<le> 1 \<and>
     printed_value (Finite False xc) = Some px \<and> printed_value (Finite False yc) = Some py \<and>
     printed_value (Finite False wd) = Some pw \<and> printed_value (Finite False ht) = Some ph \<and>
     \<bar>(px - pw / 2) * of_int 640 - of_int 100\<bar> \<le> of_int 640 / 10 ^ 6 \<and>
     \<bar>(px + pw / 2) * of_int 640 - of_int 200\<bar> \<le> of_int 640 / 10 ^ 6 \<and>
     \<bar>(py - ph / 2) * of_int 480 - of_int 50\<bar> \<le> of_int 480 / 10 ^ 6 \<and>
     \<bar>(py + ph / 2) * of_int 480 - of_int 150\<bar> \<le> of_int 480 / 10 ^ 6)"
proof -
  have a: "(0::int) < 640" "(640::int) \<le> 2 ^ 52" "(0::int) < 480" "(480::int) \<le> 2 ^ 52"
    "(0::int) \<le> 100" "(100::int) \<le> 200" "(200::int) \<le> 640"
    "(0::int) \<le> 50" "(50::int) \<le> 150" "(150::int) \<le> 480"
    by simp_all
  from convert_roundtrip [OF a] a show ?thesis by blast
qed

text \<open>
  Claim C9 as the specification states it, for every image size, fails for an image width
  of \<open>2^1023\<close> and a box at \<open>xmin = xmax = 2^1022\<close>: \<open>2.0 * W\<close> is infinite, \<open>x_center\<close> comes
  out as 0 and \<open>width\<close> as 0, and re-expanding them gives 0, which is \<open>2^1022\<close> away from
  \<open>xmin\<close>.
\<close>

theorem convert_roundtrip_counterexample:
  "(0::int) \<le> 2 ^ 1022 \<and> (2::int) ^ 1022 \<le> 2 ^ 1023 \<and>
   convert_to_yolo_format (2 ^ 1023, 1) (2 ^ 1022, 2 ^ 1022, 0, 0)
     = Inr (Finite False 0, Finite False 0, Finite False 0, Finite False 0) \<and>
   printed_value (Finite False 0) = Some 0 \<and>
   \<not> \<bar>(0 - 0 / 2) * of_int (2 ^ 1023) - of_int (2 ^ 1022)\<bar> \<le> (of_int (2 ^ 1023) :: rat) / 10 ^ 6"
proof -
  have "nearest (2 ^ 1023) = of_int 4503599627370496 * 2 powi (1023 - 52)"
    by (rule nearest_eqI) simp_all
  then have n: "nearest (2 ^ 1023) = 2 ^ 1023" by simp
  have "nearest (2 ^ 1024) = of_int 4503599627370496 * 2 powi (1024 - 52)"
    by (rule nearest_eqI) simp_all
  then have m: "nearest (2 ^ 1024) = 2 ^ 1024" by simp
  have f: "float_of_int (2 ^ 1023) = Inr (Finite False (2 ^ 1023))"
    using n by (simp add: float_of_int_def fl_round_def)
  have "fl_round False (2 * 2 ^ 1023) = Infinity False"
    using m by (simp add: fl_round_def)
  then have dw: "py_mul_float_int (Finite False 2) (2 ^ 1023) = Inr (Infinity False)"
    using f by (simp add: py_mul_float_int_def)
  have xc: "py_truediv_int_float (2 ^ 1022 + 2 ^ 1022) (Infinity False) = Inr (Finite False 0)"
    using f by (simp add: py_truediv_int_float_def)
  have dh: "py_mul_float_int (Finite False 2) 1 = Inr (Finite False 2)"
    using mul_two_exact [of 1] by simp
  have yc: "py_truediv_int_float (0 + 0) (Finite False 2) = Inr (Finite False 0)"
    using center_exact [of 0 1] by (simp add: nearest_0)
  have wd: "py_truediv_int_int (2 ^ 1022 - 2 ^ 1022) (2 ^ 1023) = Inr (Finite False 0)"
    by (simp add: py_truediv_int_int_def fl_round_def nearest_0)
  have ht: "py_truediv_int_int (0 - 0) 1 = Inr (Finite False 0)"
    by (simp add: py_truediv_int_int_def fl_round_def nearest_0)
  have c: "convert_to_yolo_format (2 ^ 1023, 1) (2 ^ 1022, 2 ^ 1022, 0, 0)
     = Inr (Finite False 0, Finite False 0, Finite False 0, Finite False 0)"
    unfolding convert_to_yolo_format_def
    by (simp only: prod.case dw xc dh yc wd ht sum.case)
  have p: "printed_value (Finite False 0) = Some 0"
    by (simp add: scaled_6f_def rhe_of_int [of 0, simplified])
  have r: "\<not> \<bar>(0 - 0 / 2) * of_int (2 ^ 1023) - of_int (2 ^ 1022)\<bar>
      \<le> (of_int (2 ^ 1023) :: rat) / 10 ^ 6" by simp
  have "(0::int) \<le> 2 ^ 1022" "(2::int) ^ 1022 \<le> 2 ^ 1023" by simp_all
  with c p r show ?thesis by blast
qed

end
